theory Spec2Isabelle
  imports Complex_Main "HOL-Library.AList" "HOL-Library.Sublist" "HOL-Library.Log_Nat"
begin

section \<open>JavaScript values used by the game\<close>

text \<open>
  The typing game is written in JavaScript. Three kinds of values need care:
  \<^item> a property that holds a one-character string, \<open>null\<close> or \<open>undefined\<close>
    (\<open>Enemy.next\<close>, \<open>Game.nextModifier\<close>, the keys of the \<open>activeEnemies\<close> Map);
  \<^item> a Number that may be the result of a division by zero (\<open>Enemy.completed\<close>);
  \<^item> an uncaught exception, which leaves the mutations made before it in place.

  Counts, delays, limits and the difficulty level are integers or multiples of 1/2 far
  below \<open>2^53\<close>: doubles hold them exactly, and they are modelled by \<open>nat\<close>, \<open>int\<close>
  and \<open>real\<close>. The one computation that rounds, \<open>(typed / word.length) * 100\<close>, is
  rounded as IEEE 754 binary64 arithmetic rounds it (section below). Characters are the
  8-bit characters of HOL, read as ASCII.
\<close>

datatype jsval = Undefined | Null | Str string

datatype jsnum = Num real | Infinity

datatype error = TypeError

text \<open>\<open>s[i]\<close> on a string: the one-character string at index \<open>i\<close>, or \<open>undefined\<close>.\<close>

definition charAt :: "string \<Rightarrow> nat \<Rightarrow> jsval" where
  "charAt s i = (if i < length s then Str [s ! i] else Undefined)"

text \<open>\<open>v ?? null\<close>: the nullish coalescing with \<open>null\<close>.\<close>

fun orNull :: "jsval \<Rightarrow> jsval" where
  "orNull Undefined = Null"
| "orNull Null = Null"
| "orNull (Str s) = Str s"

text \<open>\<open>v ?? ''\<close> inside a template literal.\<close>

fun orEmpty :: "jsval \<Rightarrow> string" where
  "orEmpty (Str s) = s"
| "orEmpty _ = []"

subsection \<open>Double precision\<close>

text \<open>
  A double is \<open>m * 2^e\<close> with an integer \<open>m\<close> of at most 53 bits and \<open>e \<ge> -1074\<close>.
  \<open>ilog2 x\<close> is the exponent of the leading bit of a positive \<open>x\<close>, \<open>ulp x\<close> the
  distance between the doubles around \<open>x\<close>, and \<open>fl x\<close> the double nearest to \<open>x\<close>,
  the tie going to the even \<open>m\<close>: the result of every arithmetic operation in
  JavaScript is \<open>fl\<close> of its exact result. A result of \<open>2^1024\<close> or more is
  \<open>Infinity\<close> (\<open>toNumber\<close>).
\<close>

definition ilog2 :: "real \<Rightarrow> int" where
  "ilog2 x = (if 1 \<le> x then bitlen \<lfloor>x\<rfloor> - 1 else - bitlen (\<lceil>1 / x\<rceil> - 1))"

definition ulp :: "real \<Rightarrow> real" where
  "ulp x = 2 powi max (ilog2 x - 52) (- 1074)"

definition roundEven :: "real \<Rightarrow> int" where
  "roundEven y =
     (let k = \<lfloor>y\<rfloor>; r = y - of_int k
      in if r < 1 / 2 then k else if 1 / 2 < r then k + 1 else if even k then k else k + 1)"

definition fl :: "real \<Rightarrow> real" where
  "fl x = sgn x * (of_int (roundEven (\<bar>x\<bar> / ulp \<bar>x\<bar>)) * ulp \<bar>x\<bar>)"

definition toNumber :: "real \<Rightarrow> jsnum" where
  "toNumber x = (if x < 2 ^ 1024 then Num x else Infinity)"

text \<open>
  \<open>(a / b) * 100\<close> for a count \<open>a\<close> that is at least 1 when \<open>b\<close> is 0: the quotient
  is rounded, and so is the product.
\<close>

definition percentOf :: "nat \<Rightarrow> nat \<Rightarrow> jsnum" where
  "percentOf a b =
     (if b = 0 then Infinity else toNumber (fl (fl (real a / real b) * 100)))"

fun jsnum_le :: "jsnum \<Rightarrow> jsnum \<Rightarrow> bool" where
  "jsnum_le (Num a) (Num b) = (a \<le> b)"
| "jsnum_le _ Infinity = True"
| "jsnum_le Infinity (Num b) = False"

text \<open>\<open>lo \<le> x \<le> hi\<close> for a Number \<open>x\<close>.\<close>

fun inRange :: "real \<Rightarrow> real \<Rightarrow> jsnum \<Rightarrow> bool" where
  "inRange lo hi (Num x) = (lo \<le> x \<and> x \<le> hi)"
| "inRange lo hi Infinity = False"

text \<open>A Number \<open>x\<close> that differs from the real number \<open>v\<close> by at most \<open>eps\<close>.\<close>

fun closeTo :: "real \<Rightarrow> real \<Rightarrow> jsnum \<Rightarrow> bool" where
  "closeTo eps v (Num x) = (\<bar>x - v\<bar> \<le> eps)"
| "closeTo eps v Infinity = False"

text \<open>\<open>String.prototype.toLowerCase\<close> on ASCII.\<close>

definition lowerChar :: "char \<Rightarrow> char" where
  "lowerChar c =
     (case map_of (zip ''ABCDEFGHIJKLMNOPQRSTUVWXYZ'' ''abcdefghijklmnopqrstuvwxyz'') c of
        None \<Rightarrow> c
      | Some d \<Rightarrow> d)"

definition toLowerCase :: "string \<Rightarrow> string" where
  "toLowerCase s = map lowerChar s"

section \<open>Enemy.js\<close>

record Enemy =
  typed :: nat
  word :: string
  completed :: jsnum
  nxt :: jsval
  defeated :: bool

text \<open>The constructor, for a word that is a string.\<close>

definition Enemy_new :: "string \<Rightarrow> Enemy" where
  "Enemy_new w =
     \<lparr> typed = 0, word = w, completed = Num 0, nxt = charAt w 0, defeated = False \<rparr>"

definition updateCompletionPercentage :: "Enemy \<Rightarrow> Enemy" where
  "updateCompletionPercentage e =
     (let t = typed e + 1;
          n = orNull (charAt (word e) t);
          e1 = e\<lparr> typed := t, nxt := n, completed := percentOf t (length (word e)) \<rparr>
      in if n = Null then e1\<lparr> defeated := True \<rparr> else e1)"

definition getDisplayVersion :: "Enemy \<Rightarrow> string" where
  "getDisplayVersion e =
     take (typed e) (word e) @ ''<u>'' @ orEmpty (nxt e) @ ''</u>''
       @ drop (typed e + 1) (word e)"

text \<open>
  \<open>advance n e\<close> calls \<open>updateCompletionPercentage\<close> \<open>n\<close> times on \<open>e\<close>.
  \<open>protocol n e\<close> says that none of these calls is made on a defeated enemy.
\<close>

fun advance :: "nat \<Rightarrow> Enemy \<Rightarrow> Enemy" where
  "advance 0 e = e"
| "advance (Suc n) e = advance n (updateCompletionPercentage e)"

fun protocol :: "nat \<Rightarrow> Enemy \<Rightarrow> bool" where
  "protocol 0 e = True"
| "protocol (Suc n) e = (\<not> defeated e \<and> protocol n (updateCompletionPercentage e))"

text \<open>The completion ratio as the specification words it.\<close>

definition completionRatio_spec :: "Enemy \<Rightarrow> jsnum" where
  "completionRatio_spec e = Num (real (typed e) / real (length (word e)))"

text \<open>
  What holds of an enemy over a non-empty word as long as it is only advanced while it
  is not defeated.
\<close>

definition enemy_inv :: "Enemy \<Rightarrow> bool" where
  "enemy_inv e \<longleftrightarrow>
     word e \<noteq> [] \<and> typed e \<le> length (word e) \<and>
     (defeated e \<longleftrightarrow> typed e = length (word e)) \<and>
     completed e = Num (fl (fl (real (typed e) / real (length (word e))) * 100))"

section \<open>Queue.js\<close>

text \<open>
  Objects are compared by identity in JavaScript, so every \<open>Enemy\<close> instance lives
  at an address of an object store and the queue holds addresses.
\<close>

type_synonym addr = nat

record Queue =
  queue :: "addr list"
  size_q :: int

definition Queue_new :: Queue where
  "Queue_new = \<lparr> queue = [], size_q = 0 \<rparr>"

text \<open>
  \<open>[...new Set(data)]\<close>: the elements of \<open>data\<close> in the order of their first
  occurrence; a later element that is the same value (for objects: the same object) as an
  earlier one is dropped.
\<close>

fun setOf :: "'a list \<Rightarrow> 'a list \<Rightarrow> 'a list" where
  "setOf acc [] = acc"
| "setOf acc (x # xs) = (if x \<in> set acc then setOf acc xs else setOf (acc @ [x]) xs)"

definition enqueue :: "addr list \<Rightarrow> Queue \<Rightarrow> Queue" where
  "enqueue data q =
     q\<lparr> size_q := size_q q + int (length data), queue := queue q @ setOf [] data \<rparr>"

text \<open>\<open>dequeue\<close> returns \<open>None\<close> for the \<open>undefined\<close> that \<open>shift\<close> gives on an empty array.\<close>

definition dequeue :: "Queue \<Rightarrow> addr option \<times> Queue" where
  "dequeue q =
     (let q1 = q\<lparr> size_q := size_q q - 1 \<rparr>
      in case queue q1 of [] \<Rightarrow> (None, q1) | x # xs \<Rightarrow> (Some x, q1\<lparr> queue := xs \<rparr>))"

definition clear :: "Queue \<Rightarrow> Queue" where
  "clear q = q\<lparr> queue := [] \<rparr>"

text \<open>
  The bulk insert as the specification words it: duplicates are found by value equality,
  so two instances that carry the same word are duplicates of each other.
\<close>

fun dedupBy :: "('a \<Rightarrow> 'b) \<Rightarrow> 'a list \<Rightarrow> 'a list \<Rightarrow> 'a list" where
  "dedupBy f acc [] = acc"
| "dedupBy f acc (x # xs) =
     (if f x \<in> f ` set acc then dedupBy f acc xs else dedupBy f (acc @ [x]) xs)"

definition enqueueBatch_spec :: "(addr \<Rightarrow> Enemy) \<Rightarrow> addr list \<Rightarrow> Queue \<Rightarrow> Queue" where
  "enqueueBatch_spec h data q =
     q\<lparr> size_q := size_q q + int (length data),
        queue := queue q @ dedupBy (\<lambda>a. word (h a)) [] data \<rparr>"

section \<open>Game.js\<close>

text \<open>
  The state of a \<open>Game\<close> instance, together with the part of its environment that the
  controller changes: the object store of the \<open>Enemy\<close> instances (\<open>heap\<close>,
  \<open>nextAddr\<close>), the running interval timers with their task and period (\<open>timers\<close>,
  \<open>nextTimer\<close>), the counter of created paragraph nodes (\<open>nextNode\<close>) and the
  difficulty messages appended to the message area (\<open>messages\<close>). Styling and the text
  of the score, lives and difficulty displays are left out; DOM calls are taken to succeed.

  An \<open>EnemyValueObject\<close> is never changed after \<open>_addEnemyWord\<close> has created it and
  it holds the handle of its own detector timer, so it is modelled as a value. The
  \<open>Enemy\<close> it refers to is mutable and is reached through the store.

  \<open>activeEnemies\<close> is a JavaScript Map: an association list in insertion order, read
  with \<open>map_of\<close>, written with \<open>AList.update\<close> (replace in place or append) and
  \<open>AList.delete\<close>.
\<close>

datatype task = SpawnTask | EnqueueTask | DifficultyTask | DetectorTask nat

record EnemyValueObject =
  enemy :: addr
  node :: nat
  detector :: nat

record Game =
  gameMode :: string
  difficultyLevel :: real
  lives :: "int option"
  activeEnemies :: "(jsval \<times> EnemyValueObject) list"
  enemyQueue :: Queue
  enemySpawnDelay :: int
  loadQueueDelay :: int
  difficultyIncreaseDelay :: int
  nextModifier :: jsval
  score :: int
  streak :: int
  highScore :: int
  currentTarget :: "EnemyValueObject option"
  spawnInterval :: "nat option"
  enqueueInterval :: "nat option"
  difficultyInterval :: "nat option"
  queueLimit :: int
  activeEnemyLimit :: int
  missedWords :: "string list"
  heap :: "addr \<Rightarrow> Enemy"
  nextAddr :: addr
  timers :: "(nat \<times> task \<times> int) list"
  nextTimer :: nat
  nextNode :: nat
  messages :: "string list"

text \<open>
  The constructor. \<open>lives\<close> starts as \<open>undefined\<close>; \<open>None\<close> stands for it and for
  the \<open>NaN\<close> that arithmetic on it gives.
\<close>

definition Game_new :: Game where
  "Game_new =
     \<lparr> gameMode = [], difficultyLevel = 0, lives = None, activeEnemies = [],
       enemyQueue = Queue_new, enemySpawnDelay = 2500, loadQueueDelay = 10000,
       difficultyIncreaseDelay = 25000, nextModifier = Str ''interval'', score = 0,
       streak = 0, highScore = 0, currentTarget = None, spawnInterval = None,
       enqueueInterval = None, difficultyInterval = None, queueLimit = 30,
       activeEnemyLimit = 10, missedWords = [], heap = (\<lambda>_. Enemy_new []),
       nextAddr = 0, timers = [], nextTimer = 1, nextNode = 0, messages = [] \<rparr>"

definition setInterval :: "task \<Rightarrow> int \<Rightarrow> Game \<Rightarrow> nat \<times> Game" where
  "setInterval t d g =
     (nextTimer g,
      g\<lparr> timers := timers g @ [(nextTimer g, t, d)], nextTimer := nextTimer g + 1 \<rparr>)"

definition clearInterval :: "nat option \<Rightarrow> Game \<Rightarrow> Game" where
  "clearInterval h g =
     (case h of None \<Rightarrow> g
      | Some i \<Rightarrow> g\<lparr> timers := filter (\<lambda>t. fst t \<noteq> i) (timers g) \<rparr>)"

text \<open>A call of \<open>updateCompletionPercentage\<close> on the instance at address \<open>a\<close>.\<close>

definition callUpdate :: "addr \<Rightarrow> Game \<Rightarrow> Game" where
  "callUpdate a g = g\<lparr> heap := (heap g)(a := updateCompletionPercentage (heap g a)) \<rparr>"

definition setCurrentTarget :: "EnemyValueObject \<Rightarrow> Game \<Rightarrow> Game" where
  "setCurrentTarget en g = g\<lparr> currentTarget := Some en \<rparr>"

definition clearEnemyWord :: "Game \<Rightarrow> error option \<times> Game" where
  "clearEnemyWord g =
     (case currentTarget g of
        None \<Rightarrow> (Some TypeError, g)
      | Some t \<Rightarrow>
          let e = heap g (enemy t);
              g1 = g\<lparr> score := score g + (int (length (word e)) + streak g) \<rparr>;
              g2 = g1\<lparr> activeEnemies := AList.delete (charAt (word e) 0) (activeEnemies g1) \<rparr>;
              g3 = clearInterval (Some (detector t)) g2;
              g4 = g3\<lparr> currentTarget := None \<rparr>
          in (None, g4\<lparr> streak := streak g4 + \<lceil>1 + difficultyLevel g4\<rceil> \<rparr>))"

text \<open>
  \<open>_handleKeyPress\<close>, for the \<open>key\<close> of the keyboard event. The last statement of the
  branch without a target reads \<open>this.currentTarget.enemy\<close> whether or not a word was
  found.
\<close>

definition handleKeyPress :: "string \<Rightarrow> Game \<Rightarrow> error option \<times> Game" where
  "handleKeyPress key g =
     (case currentTarget g of
        Some t \<Rightarrow>
          if Str (toLowerCase key) = nxt (heap g (enemy t)) then
            let g1 = callUpdate (enemy t) g
            in if nxt (heap g1 (enemy t)) = Null then clearEnemyWord g1 else (None, g1)
          else (None, g)
      | None \<Rightarrow>
          let g1 = (case map_of (activeEnemies g) (Str key) of
                      Some wordTarget \<Rightarrow>
                        callUpdate (enemy wordTarget) (setCurrentTarget wordTarget g)
                    | None \<Rightarrow> g)
          in (case currentTarget g1 of
                None \<Rightarrow> (Some TypeError, g1)
              | Some t \<Rightarrow> (None, g1)))"

text \<open>
  \<open>_loadIntoQueue\<close>. The dictionary \<open>words\<close> is a parameter, and so is the source of
  randomness: \<open>rnd i\<close> is the value of the \<open>i\<close>-th call of \<open>Math.random()\<close>.
  \<open>new Enemy(undefined)\<close> throws when it reads \<open>word[0]\<close>.
\<close>

definition randomIndex :: "real \<Rightarrow> nat \<Rightarrow> int" where
  "randomIndex r n = \<lfloor>r * (real n - 1)\<rfloor>"

definition wordAt :: "string list \<Rightarrow> int \<Rightarrow> string option" where
  "wordAt ws i = (if 0 \<le> i \<and> i < int (length ws) then Some (ws ! nat i) else None)"

function loadLoop ::
  "string list \<Rightarrow> (nat \<Rightarrow> real) \<Rightarrow> int \<Rightarrow> nat \<Rightarrow> addr list \<Rightarrow> Game
     \<Rightarrow> error option \<times> addr list \<times> Game" where
  "loadLoop ws rnd needed i newEnemies g =
     (if int i < needed then
        (case wordAt ws (randomIndex (rnd i) (length ws)) of
           None \<Rightarrow> (Some TypeError, newEnemies, g)
         | Some w \<Rightarrow>
             loadLoop ws rnd needed (i + 1) (newEnemies @ [nextAddr g])
               (g\<lparr> heap := (heap g)(nextAddr g := Enemy_new w),
                   nextAddr := nextAddr g + 1 \<rparr>))
      else (None, newEnemies, g))"
  by pat_completeness auto
termination
  by (relation "measure (\<lambda>(ws, rnd, needed, i, newEnemies, g). nat (needed - int i))") auto

declare loadLoop.simps [simp del]

definition loadIntoQueue :: "string list \<Rightarrow> (nat \<Rightarrow> real) \<Rightarrow> Game \<Rightarrow> error option \<times> Game" where
  "loadIntoQueue ws rnd g =
     (let needed = queueLimit g - size_q (enemyQueue g)
      in case loadLoop ws rnd needed 0 [] g of
           (Some err, newEnemies, g1) \<Rightarrow> (Some err, g1)
         | (None, newEnemies, g1) \<Rightarrow>
             (None, g1\<lparr> enemyQueue := enqueue newEnemies (enemyQueue g1) \<rparr>))"

text \<open>\<open>_addEnemyWord\<close>; its argument is \<open>undefined\<close> when the queue was empty.\<close>

definition addEnemyWord :: "addr option \<Rightarrow> Game \<Rightarrow> error option \<times> Game" where
  "addEnemyWord eo g =
     (case eo of
        None \<Rightarrow> (Some TypeError, g)
      | Some a \<Rightarrow>
          if map_of (activeEnemies g) (nxt (heap g a)) \<noteq> None then (None, g)
          else if int (length (activeEnemies g)) \<ge> activeEnemyLimit g then (None, g)
          else
            let n = nextNode g;
                g1 = g\<lparr> nextNode := n + 1 \<rparr>;
                (d, g2) = setInterval (DetectorTask n) 75 g1
            in (None,
                g2\<lparr> activeEnemies :=
                      AList.update (nxt (heap g2 a)) \<lparr> enemy = a, node = n, detector = d \<rparr>
                        (activeEnemies g2) \<rparr>))"

text \<open>The callback of the spawn interval: \<open>this._addEnemyWord(this.enemyQueue.dequeue())\<close>.\<close>

definition spawnTick :: "Game \<Rightarrow> error option \<times> Game" where
  "spawnTick g =
     (let (e, q) = dequeue (enemyQueue g)
      in addEnemyWord e (g\<lparr> enemyQueue := q \<rparr>))"

definition setIntervals :: "Game \<Rightarrow> Game" where
  "setIntervals g =
     (let g1 = clearInterval (spawnInterval g) g;
          g2 = clearInterval (enqueueInterval g1) g1;
          g3 = clearInterval (difficultyInterval g2) g2;
          (s, g4) = setInterval SpawnTask (enemySpawnDelay g3) g3;
          g5 = g4\<lparr> spawnInterval := Some s \<rparr>;
          (e, g6) = setInterval EnqueueTask (loadQueueDelay g5) g5;
          g7 = g6\<lparr> enqueueInterval := Some e \<rparr>;
          (d, g8) = setInterval DifficultyTask (difficultyIncreaseDelay g7) g7
      in g8\<lparr> difficultyInterval := Some d \<rparr>)"

text \<open>
  \<open>_updateDisplay('message', value, modifier)\<close>: the message names the axis that was
  just used. \<open>modifier.toLowerCase()\<close> throws when \<open>modifier\<close> is \<open>null\<close>.
\<close>

definition updateDisplay_message :: "jsval \<Rightarrow> Game \<Rightarrow> error option \<times> Game" where
  "updateDisplay_message modifier g =
     (case modifier of
        Str m \<Rightarrow>
          (None,
           g\<lparr> messages := messages g @
                 [''Difficulty up - '' @
                    (if toLowerCase m = ''interval'' then ''Intervals Decreased!''
                     else ''More Words Coming!'')] \<rparr>)
      | _ \<Rightarrow> (Some TypeError, g))"

definition increaseDifficulty :: "Game \<Rightarrow> error option \<times> Game" where
  "increaseDifficulty g =
     (if difficultyLevel g = 5 then
        (None, clearInterval (difficultyInterval g) (g\<lparr> nextModifier := Null \<rparr>))
      else
        let prevModifier = nextModifier g;
            g1 = (if nextModifier g = Str ''interval'' then
                    (if enemySpawnDelay g > 500 then
                       g\<lparr> loadQueueDelay := loadQueueDelay g - 1000,
                          enemySpawnDelay := enemySpawnDelay g - 500,
                          difficultyLevel := difficultyLevel g + 1 / 2 \<rparr>
                     else g)
                  else if nextModifier g = Str ''wordlimit'' then
                    (if queueLimit g < 60 then
                       g\<lparr> queueLimit := queueLimit g + 5,
                          activeEnemyLimit := activeEnemyLimit g + 1,
                          difficultyLevel := difficultyLevel g + 1 / 2 \<rparr>
                     else g)
                  else g);
            g2 = setIntervals g1;
            g3 = g2\<lparr> nextModifier :=
                      (if prevModifier = Str ''interval'' then Str ''wordlimit''
                       else Str ''interval'') \<rparr>
        in updateDisplay_message prevModifier g3)"

definition resetDefaults :: "Game \<Rightarrow> Game" where
  "resetDefaults g =
     (let g1 = g\<lparr> enemyQueue := clear (enemyQueue g) \<rparr>;
          g2 = fold (\<lambda>kv. clearInterval (Some (detector (snd kv)))) (activeEnemies g1) g1;
          g3 = g2\<lparr> activeEnemies := [] \<rparr>
      in g3\<lparr> missedWords := [], streak := 0, queueLimit := 30, difficultyLevel := 0,
             activeEnemyLimit := 10, loadQueueDelay := 10000, enemySpawnDelay := 2500,
             currentTarget := None, nextModifier := Str ''interval'' \<rparr>)"

definition endGame :: "Game \<Rightarrow> Game" where
  "endGame g =
     (let g1 = g\<lparr> highScore := max (score g) (highScore g) \<rparr>;
          g2 = resetDefaults g1;
          g3 = clearInterval (spawnInterval g2) g2;
          g4 = clearInterval (enqueueInterval g3) g3
      in clearInterval (difficultyInterval g4) g4)"

text \<open>
  \<open>_collisionHandler\<close>, for the text \<open>w\<close> of the node that reached the boundary.
  When the Map has no entry for \<open>w[0]\<close>, \<open>enemy.detector\<close> throws after the lives and
  the streak have been changed.
\<close>

definition collisionHandler :: "string \<Rightarrow> Game \<Rightarrow> error option \<times> Game" where
  "collisionHandler w g =
     (let g1 = g\<lparr> lives := map_option (\<lambda>l. l - 1) (lives g), streak := 0 \<rparr>;
          k = charAt w 0
      in case map_of (activeEnemies g1) k of
           None \<Rightarrow>
             (Some TypeError, g1\<lparr> activeEnemies := AList.delete k (activeEnemies g1) \<rparr>)
         | Some en \<Rightarrow>
             let g2 = (if currentTarget g1 = Some en then g1\<lparr> currentTarget := None \<rparr>
                       else g1);
                 g3 = g2\<lparr> activeEnemies := AList.delete k (activeEnemies g2) \<rparr>;
                 g4 = clearInterval (Some (detector en)) g3;
                 g5 = g4\<lparr> missedWords := missedWords g4 @ [w] \<rparr>
             in if (case lives g5 of Some l \<Rightarrow> l \<le> 0 | None \<Rightarrow> False)
                then (None, endGame g5) else (None, g5))"

definition initGame ::
  "string list \<Rightarrow> (nat \<Rightarrow> real) \<Rightarrow> string \<Rightarrow> Game \<Rightarrow> error option \<times> Game" where
  "initGame ws rnd mode g =
     (let g1 = g\<lparr> score := 0, gameMode := toLowerCase mode \<rparr>;
          g2 = g1\<lparr> lives := Some (if gameMode g1 = ''normal'' then 4 else 1) \<rparr>
      in case loadIntoQueue ws rnd g2 of
           (Some err, g3) \<Rightarrow> (Some err, g3)
         | (None, g3) \<Rightarrow> (None, setIntervals g3))"

subsection \<open>The event loop\<close>

text \<open>
  Every handler runs to completion; an exception that escapes a handler is reported by
  the browser and the next event is handled in the state the handler left behind.
  The events are the start button and the retry button (\<open>InitGame\<close>), a key press, the
  three interval callbacks and the collision of a word; the three operations that the
  handlers call (\<open>_clearEnemyWord\<close>, \<open>endGame\<close>, \<open>_resetDefaults\<close>) are events of
  their own as well. \<open>run\<close> lets any event arrive at any time.
\<close>

datatype event =
    InitGame string "nat \<Rightarrow> real"
  | KeyPress string
  | SpawnTick
  | EnqueueTick "nat \<Rightarrow> real"
  | DifficultyTick
  | Collision string
  | ClearEnemyWord
  | EndGame
  | ResetDefaults

fun fire :: "string list \<Rightarrow> event \<Rightarrow> Game \<Rightarrow> error option \<times> Game" where
  "fire ws (InitGame mode rnd) g = initGame ws rnd mode g"
| "fire ws (KeyPress key) g = handleKeyPress key g"
| "fire ws SpawnTick g = spawnTick g"
| "fire ws (EnqueueTick rnd) g = loadIntoQueue ws rnd g"
| "fire ws DifficultyTick g = increaseDifficulty g"
| "fire ws (Collision w) g = collisionHandler w g"
| "fire ws ClearEnemyWord g = clearEnemyWord g"
| "fire ws EndGame g = (None, endGame g)"
| "fire ws ResetDefaults g = (None, resetDefaults g)"

fun run :: "string list \<Rightarrow> event list \<Rightarrow> Game \<Rightarrow> Game" where
  "run ws [] g = g"
| "run ws (ev # evs) g = run ws evs (snd (fire ws ev g))"

text \<open>\<open>ticks n g\<close>: the state after \<open>n\<close> calls of \<open>_increaseDifficulty\<close>.\<close>

fun ticks :: "nat \<Rightarrow> Game \<Rightarrow> Game" where
  "ticks 0 g = g"
| "ticks (Suc n) g = ticks n (snd (increaseDifficulty g))"

subsection \<open>Two short sessions\<close>

text \<open>
  Both sessions use the one-word dictionary "cat". In the first the game is started in
  normal mode and the spawn interval fires once, so the word "cat" is on screen and not
  targeted. In the second the game is started in sudden-death mode, "cat" is spawned and
  reaches the boundary, which ends the game; the player presses the retry button and the
  spawn interval fires once.
\<close>

definition session_spawned :: Game where
  "session_spawned = run [''cat''] [InitGame ''Normal'' (\<lambda>_. 0), SpawnTick] Game_new"

definition session_retried :: Game where
  "session_retried =
     run [''cat'']
       [InitGame ''Sudden Death'' (\<lambda>_. 0), SpawnTick, Collision ''cat'',
        InitGame ''sudden death'' (\<lambda>_. 0), SpawnTick]
       Game_new"

subsection \<open>Auxiliary notions for the proofs\<close>

text \<open>
  The six fields that \<open>_increaseDifficulty\<close> reads and writes, and its effect on them
  as a function of these fields alone (lemma \<open>scaling_increaseDifficulty\<close> relates it
  to the code).
\<close>

definition scaling :: "Game \<Rightarrow> jsval \<times> int \<times> int \<times> int \<times> int \<times> real" where
  "scaling g =
     (nextModifier g, enemySpawnDelay g, loadQueueDelay g, queueLimit g, activeEnemyLimit g,
      difficultyLevel g)"

fun scale_step ::
  "jsval \<times> int \<times> int \<times> int \<times> int \<times> real \<Rightarrow> jsval \<times> int \<times> int \<times> int \<times> int \<times> real" where
  "scale_step (m, sd, lq, ql, al, lv) =
     (if lv = 5 then (Null, sd, lq, ql, al, lv)
      else if m = Str ''interval'' then
        (if sd > 500 then (Str ''wordlimit'', sd - 500, lq - 1000, ql, al, lv + 1 / 2)
         else (Str ''wordlimit'', sd, lq, ql, al, lv))
      else if m = Str ''wordlimit'' then
        (if ql < 60 then (Str ''interval'', sd, lq, ql + 5, al + 1, lv + 1 / 2)
         else (Str ''interval'', sd, lq, ql, al, lv))
      else (Str ''interval'', sd, lq, ql, al, lv))"

text \<open>
  The level is half the number of steps taken on the two axes: the spawn delay goes from
  2500 down to 500 in steps of 500, the queue limit from 30 up to 60 in steps of 5.
\<close>

definition scaling_inv :: "Game \<Rightarrow> bool" where
  "scaling_inv g \<longleftrightarrow>
     500 \<le> enemySpawnDelay g \<and> enemySpawnDelay g \<le> 2500 \<and> 500 dvd enemySpawnDelay g \<and>
     30 \<le> queueLimit g \<and> queueLimit g \<le> 60 \<and> 5 dvd queueLimit g \<and>
     difficultyLevel g =
       real_of_int ((2500 - enemySpawnDelay g) div 500 + (queueLimit g - 30) div 5) / 2"

text \<open>
  What every handler of the controller maintains: the keys of the registry are distinct
  and there are at most \<open>activeEnemyLimit\<close> of them; an entry is filed under the first
  character of its word; the instances waiting in the queue are distinct, untouched
  (\<open>next\<close> is still the first character of the word) and shared neither with the
  registry nor with the current target.
\<close>

definition game_inv :: "Game \<Rightarrow> bool" where
  "game_inv g \<longleftrightarrow>
     distinct (map fst (activeEnemies g)) \<and>
     int (length (activeEnemies g)) \<le> activeEnemyLimit g \<and>
     (\<forall>p \<in> set (activeEnemies g).
         fst p = charAt (word (heap g (enemy (snd p)))) 0 \<and>
         enemy (snd p) < nextAddr g \<and>
         enemy (snd p) \<notin> set (queue (enemyQueue g))) \<and>
     (\<forall>a \<in> set (queue (enemyQueue g)).
         a < nextAddr g \<and> nxt (heap g a) = charAt (word (heap g a)) 0) \<and>
     distinct (queue (enemyQueue g)) \<and>
     (case currentTarget g of
        None \<Rightarrow> True
      | Some t \<Rightarrow> enemy t < nextAddr g \<and> enemy t \<notin> set (queue (enemyQueue g)))"

section \<open>Rounding to a double\<close>

lemma ilog2_bounds:
  assumes "0 < x"
  shows "2 powi ilog2 x \<le> x" and "x < 2 powi (ilog2 x + 1)"
proof -
  have "2 powi ilog2 x \<le> x \<and> x < 2 powi (ilog2 x + 1)"
  proof (cases "1 \<le> x")
    case True
    define k where "k = \<lfloor>x\<rfloor>"
    define b where "b = bitlen k"
    from True have k: "0 < k" by (simp add: k_def)
    from bitlen_bounds [OF k] have lo: "2 ^ nat (b - 1) \<le> k" and hi: "k < 2 ^ nat b"
      by (simp_all add: b_def)
    from k bitlen_eq_zero_iff [of k] have "b \<noteq> 0" by (simp add: b_def)
    with bitlen_nonneg [of k] have b: "1 \<le> b" by (simp add: b_def)
    have i: "ilog2 x = b - 1"
      using True by (simp add: ilog2_def b_def k_def)
    have "real_of_int (2 ^ nat (b - 1)) \<le> real_of_int k"
      using lo by (simp only: of_int_le_iff)
    also have "\<dots> \<le> x" by (simp add: k_def)
    finally have 1: "2 powi (b - 1) \<le> x"
      using b by (simp add: power_int_nonneg_exp)
    from hi have "k + 1 \<le> 2 ^ nat b" by simp
    then have "real_of_int (k + 1) \<le> real_of_int (2 ^ nat b)"
      by (simp only: of_int_le_iff)
    moreover have "x < real_of_int (k + 1)" by (simp add: k_def)
    ultimately have 2: "x < 2 powi b"
      using b by (simp add: power_int_nonneg_exp)
    from 1 2 show ?thesis by (simp add: i)
  next
    case False
    with assms have y: "1 < 1 / x" by simp
    define m where "m = \<lceil>1 / x\<rceil> - 1"
    define b where "b = bitlen m"
    from y have "2 \<le> \<lceil>1 / x\<rceil>" by linarith
    then have m: "0 < m" by (simp add: m_def)
    from bitlen_bounds [OF m] have lo: "2 ^ nat (b - 1) \<le> m" and hi: "m < 2 ^ nat b"
      by (simp_all add: b_def)
    from m bitlen_eq_zero_iff [of m] have "b \<noteq> 0" by (simp add: b_def)
    with bitlen_nonneg [of m] have b: "1 \<le> b" by (simp add: b_def)
    have i: "ilog2 x = - b"
      using False by (simp add: ilog2_def b_def m_def)
    have p: "(0::real) < 2 ^ nat b" "(0::real) < 2 ^ nat (b - 1)" by simp_all
    from hi have "m + 1 \<le> 2 ^ nat b" by simp
    then have "real_of_int (m + 1) \<le> real_of_int (2 ^ nat b)"
      by (simp only: of_int_le_iff)
    moreover have "1 / x \<le> real_of_int (m + 1)" by (simp add: m_def)
    ultimately have "1 / x \<le> 2 ^ nat b" by simp
    with assms p have "1 / 2 ^ nat b \<le> x"
      by (simp add: field_simps)
    then have 1: "2 powi (- b) \<le> x"
      using b by (simp add: power_int_def inverse_eq_divide power_one_over)
    have "real_of_int (2 ^ nat (b - 1)) \<le> real_of_int m"
      using lo by (simp only: of_int_le_iff)
    then have "(2::real) ^ nat (b - 1) \<le> real_of_int m"
      by (simp only: of_int_power of_int_numeral)
    moreover have "real_of_int m < 1 / x" by (simp add: m_def) linarith
    ultimately have "2 ^ nat (b - 1) < 1 / x" by linarith
    with assms p have x: "x < 1 / 2 ^ nat (b - 1)"
      by (simp add: field_simps)
    have 2: "x < 2 powi (- b + 1)"
    proof (cases "b = 1")
      case True
      with x show ?thesis by simp
    next
      case False
      with b have "- b + 1 < 0" "nat (- (- b + 1)) = nat (b - 1)" by simp_all
      with x show ?thesis
        by (simp add: power_int_def inverse_eq_divide power_one_over)
    qed
    from 1 2 show ?thesis by (simp add: i)
  qed
  then show "2 powi ilog2 x \<le> x" and "x < 2 powi (ilog2 x + 1)" by blast+
qed

lemma pow2_less_imp:
  assumes "(2::real) powi a < 2 powi b"
  shows "a < b"
proof (rule ccontr)
  assume "\<not> a < b"
  then have "b \<le> a" by simp
  then have "(2::real) powi b \<le> 2 powi a"
    by (rule power_int_increasing) simp
  with assms show False by simp
qed

lemma ilog2_mono:
  assumes "0 < x" "x \<le> y"
  shows "ilog2 x \<le> ilog2 y"
proof -
  from assms have y: "0 < y" by simp
  have "2 powi ilog2 x \<le> x" by (rule ilog2_bounds [OF assms(1)])
  also note assms(2)
  also have "y < 2 powi (ilog2 y + 1)" by (rule ilog2_bounds [OF y])
  finally have "ilog2 x < ilog2 y + 1" by (rule pow2_less_imp)
  then show ?thesis by simp
qed

lemma roundEven_cases: "roundEven y = \<lfloor>y\<rfloor> \<or> roundEven y = \<lfloor>y\<rfloor> + 1"
  by (simp add: roundEven_def Let_def)

lemma roundEven_lb:
  assumes "of_int j \<le> y"
  shows "j \<le> roundEven y"
proof -
  from assms have "j \<le> \<lfloor>y\<rfloor>" by (simp add: le_floor_iff)
  with roundEven_cases [of y] show ?thesis by auto
qed

lemma roundEven_ub:
  assumes "y \<le> of_int j"
  shows "roundEven y \<le> j"
proof (cases "\<lfloor>y\<rfloor> < j")
  case True
  with roundEven_cases [of y] show ?thesis by auto
next
  case False
  moreover from assms have "\<lfloor>y\<rfloor> \<le> j" by (simp add: floor_le_iff)
  ultimately have "\<lfloor>y\<rfloor> = j" by simp
  with assms have "y = of_int j" by linarith
  then show ?thesis by (simp add: roundEven_def)
qed

lemma roundEven_mono:
  assumes "y \<le> z"
  shows "roundEven y \<le> roundEven z"
proof (cases "\<lfloor>y\<rfloor> < \<lfloor>z\<rfloor>")
  case True
  from roundEven_cases [of y] have "roundEven y \<le> \<lfloor>y\<rfloor> + 1" by auto
  also from True have "\<dots> \<le> \<lfloor>z\<rfloor>" by simp
  also from roundEven_cases [of z] have "\<dots> \<le> roundEven z" by auto
  finally show ?thesis .
next
  case False
  moreover from assms have "\<lfloor>y\<rfloor> \<le> \<lfloor>z\<rfloor>" by (rule floor_mono)
  ultimately have "\<lfloor>y\<rfloor> = \<lfloor>z\<rfloor>" by simp
  with assms show ?thesis
    by (auto simp: roundEven_def Let_def)
qed

lemma roundEven_of_int [simp]: "roundEven (of_int j) = j"
  by (simp add: roundEven_def)

lemma roundEven_0 [simp]: "roundEven 0 = 0"
  using roundEven_of_int [of 0] by simp

lemma roundEven_err: "\<bar>of_int (roundEven y) - y\<bar> \<le> 1 / 2"
proof -
  have "of_int \<lfloor>y\<rfloor> \<le> y" "y < of_int \<lfloor>y\<rfloor> + 1" by linarith+
  then show ?thesis
    by (auto simp: roundEven_def Let_def)
qed


lemma ulp_pos [simp]: "0 < ulp x"
  by (simp add: ulp_def)

lemma ulp_nonneg [simp]: "0 \<le> ulp x"
  by (simp add: ulp_def)

lemma ulp_neq_0 [simp]: "ulp x \<noteq> 0"
  by (simp add: ulp_def)

lemma fl_zero [simp]: "fl 0 = 0"
  by (simp add: fl_def)

lemma fl_pos: "0 < x \<Longrightarrow> fl x = of_int (roundEven (x / ulp x)) * ulp x"
  by (simp add: fl_def)

text \<open>
  Rounding never crosses a multiple of the unit in the last place: such a multiple is a
  double itself.
\<close>

lemma fl_le_grid:
  assumes "0 < x" and "x \<le> of_int j * ulp x"
  shows "fl x \<le> of_int j * ulp x"
proof -
  from assms(2) have "x / ulp x \<le> of_int j"
    by (simp add: pos_divide_le_eq)
  then have "roundEven (x / ulp x) \<le> j"
    by (rule roundEven_ub)
  then have "real_of_int (roundEven (x / ulp x)) \<le> real_of_int j"
    by (simp only: of_int_le_iff)
  then have "real_of_int (roundEven (x / ulp x)) * ulp x \<le> real_of_int j * ulp x"
    by (rule mult_right_mono) simp
  with assms(1) show ?thesis by (simp only: fl_pos)
qed

lemma fl_ge_grid:
  assumes "0 < x" and "of_int j * ulp x \<le> x"
  shows "of_int j * ulp x \<le> fl x"
proof -
  from assms(2) have "of_int j \<le> x / ulp x"
    by (simp add: pos_le_divide_eq)
  then have "j \<le> roundEven (x / ulp x)"
    by (rule roundEven_lb)
  then have "real_of_int j \<le> real_of_int (roundEven (x / ulp x))"
    by (simp only: of_int_le_iff)
  then have "real_of_int j * ulp x \<le> real_of_int (roundEven (x / ulp x)) * ulp x"
    by (rule mult_right_mono) simp
  with assms(1) show ?thesis by (simp only: fl_pos)
qed

lemma fl_nonneg: "0 \<le> x \<Longrightarrow> 0 \<le> fl x"
proof (cases "x = 0")
  case True
  then show ?thesis by simp
next
  case False
  assume "0 \<le> x"
  with False have x: "0 < x" by simp
  from x have "real_of_int 0 * ulp x \<le> x" by simp
  from fl_ge_grid [OF x this] show ?thesis by simp
qed

text \<open>A power of two at or above the exponent of the unit is a multiple of the unit.\<close>

lemma pow2_on_grid:
  assumes "a \<le> b"
  shows "(2::real) powi b = of_int (2 ^ nat (b - a)) * 2 powi a"
proof -
  have "(2::real) powi b = 2 powi ((b - a) + a)" by simp
  also have "\<dots> = 2 powi (b - a) * 2 powi a"
    by (rule power_int_add) simp
  also from assms have "(2::real) powi (b - a) = 2 ^ nat (b - a)"
    by (simp add: power_int_nonneg_exp)
  finally show ?thesis by simp
qed

lemma fl_mono_pos:
  assumes x: "0 < x" and xy: "x \<le> y"
  shows "fl x \<le> fl y"
proof -
  from x xy have y: "0 < y" by simp
  define ex where "ex = max (ilog2 x - 52) (- 1074)"
  define ey where "ey = max (ilog2 y - 52) (- 1074)"
  have ux: "ulp x = 2 powi ex" and uy: "ulp y = 2 powi ey"
    by (simp_all add: ulp_def ex_def ey_def)
  from ilog2_mono [OF x xy] have le: "ex \<le> ey"
    by (simp add: ex_def ey_def)
  show ?thesis
  proof (cases "ex = ey")
    case True
    then have u: "ulp y = ulp x" by (simp add: ux uy)
    from xy have "x / ulp x \<le> y / ulp x"
      by (rule divide_right_mono) simp
    then have "roundEven (x / ulp x) \<le> roundEven (y / ulp x)"
      by (rule roundEven_mono)
    then have "real_of_int (roundEven (x / ulp x)) \<le> real_of_int (roundEven (y / ulp x))"
      by (simp only: of_int_le_iff)
    then have "real_of_int (roundEven (x / ulp x)) * ulp x
        \<le> real_of_int (roundEven (y / ulp x)) * ulp x"
      by (rule mult_right_mono) simp
    with x y show ?thesis by (simp only: fl_pos u)
  next
    case False
    with le have lt: "ex < ey" by simp
    then have ey': "ey = ilog2 y - 52" and i: "ilog2 x < ilog2 y"
      by (simp_all add: ex_def ey_def max_def split: if_splits)
    let ?g = "(2::real) powi ilog2 y"
    from lt ey' have gx: "?g = of_int (2 ^ nat (ilog2 y - ex)) * ulp x"
      unfolding ux by (intro pow2_on_grid) simp
    from ey' have gy: "?g = of_int (2 ^ nat (ilog2 y - ey)) * ulp y"
      unfolding uy by (intro pow2_on_grid) simp
    have "x < 2 powi (ilog2 x + 1)" by (rule ilog2_bounds [OF x])
    also from i have "(2::real) powi (ilog2 x + 1) \<le> ?g"
      by (intro power_int_increasing) simp_all
    finally have "x \<le> ?g" by simp
    then have "x \<le> of_int (2 ^ nat (ilog2 y - ex)) * ulp x"
      by (simp only: gx [symmetric])
    from fl_le_grid [OF x this] have 1: "fl x \<le> ?g"
      by (simp only: gx [symmetric])
    have "?g \<le> y" by (rule ilog2_bounds [OF y])
    then have "of_int (2 ^ nat (ilog2 y - ey)) * ulp y \<le> y"
      by (simp only: gy [symmetric])
    from fl_ge_grid [OF y this] have 2: "?g \<le> fl y"
      by (simp only: gy [symmetric])
    from 1 2 show ?thesis by simp
  qed
qed

lemma fl_mono: "0 \<le> x \<Longrightarrow> x \<le> y \<Longrightarrow> fl x \<le> fl y"
proof (cases "x = 0")
  case True
  assume "x \<le> y"
  with True have "0 \<le> y" by simp
  with True show ?thesis by (simp add: fl_nonneg)
next
  case False
  assume "0 \<le> x" "x \<le> y"
  with False show ?thesis by (intro fl_mono_pos) simp_all
qed

lemma fl_err: "\<bar>fl x - x\<bar> \<le> ulp \<bar>x\<bar> / 2"
proof -
  let ?u = "ulp \<bar>x\<bar>"
  let ?r = "real_of_int (roundEven (\<bar>x\<bar> / ?u))"
  have "\<bar>?r - \<bar>x\<bar> / ?u\<bar> \<le> 1 / 2" by (rule roundEven_err)
  then have "\<bar>?r - \<bar>x\<bar> / ?u\<bar> * ?u \<le> 1 / 2 * ?u"
    by (rule mult_right_mono) simp
  moreover have "\<bar>?r - \<bar>x\<bar> / ?u\<bar> * ?u = \<bar>?r * ?u - \<bar>x\<bar>\<bar>"
  proof -
    have "\<bar>?r - \<bar>x\<bar> / ?u\<bar> * ?u = \<bar>(?r - \<bar>x\<bar> / ?u) * ?u\<bar>"
      by (simp add: abs_mult)
    also have "(?r - \<bar>x\<bar> / ?u) * ?u = ?r * ?u - \<bar>x\<bar>"
      by (simp add: left_diff_distrib)
    finally show ?thesis .
  qed
  ultimately have e: "\<bar>?r * ?u - \<bar>x\<bar>\<bar> \<le> ?u / 2" by simp
  have "\<bar>fl x - x\<bar> = \<bar>?r * ?u - \<bar>x\<bar>\<bar>"
  proof (cases "0 \<le> x")
    case True
    then show ?thesis by (cases "x = 0") (simp_all add: fl_def)
  next
    case False
    then have "fl x - x = - (?r * ?u - \<bar>x\<bar>)" by (simp add: fl_def)
    then show ?thesis by (simp only: abs_minus_cancel)
  qed
  with e show ?thesis by simp
qed

lemma fl_1 [simp]: "fl 1 = 1"
  by code_simp

lemma fl_100 [simp]: "fl 100 = 100"
  by code_simp

lemma fl_unit_interval: "0 \<le> x \<Longrightarrow> x \<le> 1 \<Longrightarrow> 0 \<le> fl x \<and> fl x \<le> 1"
  using fl_nonneg [of x] fl_mono [of x 1] by simp

lemma fl_percent_interval: "0 \<le> x \<Longrightarrow> x \<le> 100 \<Longrightarrow> 0 \<le> fl x \<and> fl x \<le> 100"
  using fl_nonneg [of x] fl_mono [of x 100] by simp

text \<open>The percentage of a part of a whole: in range, and close to the exact value.\<close>

lemma ilog2_less:
  assumes "0 < x" and "x < 2 powi k"
  shows "ilog2 x < k"
proof -
  have "2 powi ilog2 x \<le> x" by (rule ilog2_bounds [OF assms(1)])
  also note assms(2)
  finally show ?thesis by (rule pow2_less_imp)
qed

lemma ulp_le:
  assumes "0 < x" and "x < 2 powi k" and "- 1021 \<le> k"
  shows "ulp x \<le> 2 powi (k - 53)"
proof -
  from ilog2_less [OF assms(1,2)] assms(3) have "max (ilog2 x - 52) (- 1074) \<le> k - 53"
    by simp
  then show ?thesis
    unfolding ulp_def by (intro power_int_increasing) simp_all
qed

lemma fl_fraction_err:
  assumes "0 \<le> q" and "q \<le> 1"
  shows "\<bar>fl q - q\<bar> \<le> 1 / 2 ^ 53"
proof (cases "q = 0 \<or> q = 1")
  case True
  then show ?thesis by auto
next
  case False
  with assms have q: "0 < q" "q < 2 powi 0" by simp_all
  from ulp_le [OF q] have "ulp q \<le> 2 powi (- 53)" by simp
  then have "ulp q \<le> 1 / 2 ^ 53"
    by (simp add: power_int_minus_divide)
  moreover from fl_err [of q] q have "\<bar>fl q - q\<bar> \<le> ulp q / 2" by simp
  ultimately show ?thesis by simp
qed

lemma fl_percent_err:
  assumes "0 \<le> p" and "p \<le> 100"
  shows "\<bar>fl p - p\<bar> \<le> 1 / 2 ^ 47"
proof (cases "p = 0")
  case True
  then show ?thesis by simp
next
  case False
  with assms have p: "0 < p" "p < 2 powi 7" by simp_all
  from ulp_le [OF p] have "ulp p \<le> 2 powi (- 46)" by simp
  then have "ulp p \<le> 1 / 2 ^ 46"
    by (simp add: power_int_minus_divide)
  moreover from fl_err [of p] p have "\<bar>fl p - p\<bar> \<le> ulp p / 2" by simp
  ultimately show ?thesis by simp
qed

lemma percentOf_part:
  assumes "a \<le> b" and "b \<noteq> 0"
  shows "percentOf a b = Num (fl (fl (real a / real b) * 100))"
    and "0 \<le> fl (fl (real a / real b) * 100)"
    and "fl (fl (real a / real b) * 100) \<le> 100"
    and "\<bar>fl (fl (real a / real b) * 100) - real a / real b * 100\<bar> \<le> 1 / 2 ^ 45"
proof -
  let ?q = "real a / real b"
  from assms have q: "0 \<le> ?q" "?q \<le> 1" by simp_all
  from fl_unit_interval [OF q] have f: "0 \<le> fl ?q" "fl ?q \<le> 1" by simp_all
  then have p: "0 \<le> fl ?q * 100" "fl ?q * 100 \<le> 100" by simp_all
  from fl_percent_interval [OF p]
  show r: "0 \<le> fl (fl ?q * 100)" "fl (fl ?q * 100) \<le> 100" by simp_all
  have "(100::real) < 2 ^ 1024" by simp
  with r(2) have "fl (fl ?q * 100) < 2 ^ 1024" by (rule le_less_trans)
  with assms(2) show "percentOf a b = Num (fl (fl ?q * 100))"
    by (simp add: percentOf_def toNumber_def)
  have "fl ?q * 100 - ?q * 100 = (fl ?q - ?q) * 100"
    by (simp only: left_diff_distrib)
  then have "\<bar>fl ?q * 100 - ?q * 100\<bar> = \<bar>fl ?q - ?q\<bar> * 100"
    by (simp only: abs_mult)
  also from fl_fraction_err [OF q] have "\<bar>fl ?q - ?q\<bar> * 100 \<le> 1 / 2 ^ 53 * 100"
    by (rule mult_right_mono) simp
  finally have "\<bar>fl ?q * 100 - ?q * 100\<bar> \<le> 100 / 2 ^ 53"
    by simp
  moreover from fl_percent_err [OF p] have "\<bar>fl (fl ?q * 100) - fl ?q * 100\<bar> \<le> 1 / 2 ^ 47" .
  ultimately have "\<bar>fl (fl ?q * 100) - ?q * 100\<bar> \<le> 100 / 2 ^ 53 + 1 / 2 ^ 47"
    by linarith
  also have "\<dots> \<le> 1 / 2 ^ 45" by simp
  finally show "\<bar>fl (fl ?q * 100) - ?q * 100\<bar> \<le> 1 / 2 ^ 45" .
qed

lemma percentOf_mono:
  assumes "a \<le> c"
  shows "fl (fl (real a / real b) * 100) \<le> fl (fl (real c / real b) * 100)"
proof -
  from assms have "real a / real b \<le> real c / real b"
    by (intro divide_right_mono) simp_all
  then have "fl (real a / real b) \<le> fl (real c / real b)"
    by (intro fl_mono) simp_all
  then have "fl (real a / real b) * 100 \<le> fl (real c / real b) * 100"
    by simp
  then show ?thesis
    by (intro fl_mono) (simp_all add: fl_nonneg)
qed

section \<open>Enemy: the typing state machine\<close>

lemma update_typed [simp]: "typed (updateCompletionPercentage e) = typed e + 1"
  by (simp add: updateCompletionPercentage_def Let_def)

lemma update_word [simp]: "word (updateCompletionPercentage e) = word e"
  by (simp add: updateCompletionPercentage_def Let_def)

lemma update_completed [simp]:
  "completed (updateCompletionPercentage e) = percentOf (typed e + 1) (length (word e))"
  by (simp add: updateCompletionPercentage_def Let_def)

lemma update_nxt [simp]:
  "nxt (updateCompletionPercentage e) = orNull (charAt (word e) (typed e + 1))"
  by (simp add: updateCompletionPercentage_def Let_def)

lemma update_defeated [simp]:
  "defeated (updateCompletionPercentage e) \<longleftrightarrow>
     defeated e \<or> length (word e) \<le> typed e + 1"
  by (simp add: updateCompletionPercentage_def Let_def charAt_def)

lemma Enemy_new_typed [simp]: "typed (Enemy_new w) = 0"
  by (simp add: Enemy_new_def)

lemma Enemy_new_word [simp]: "word (Enemy_new w) = w"
  by (simp add: Enemy_new_def)

lemma advance_typed [simp]: "typed (advance n e) = typed e + n"
  by (induction n arbitrary: e) auto

lemma advance_word [simp]: "word (advance n e) = word e"
  by (induction n arbitrary: e) auto

lemma enemy_inv_new: "w \<noteq> [] \<Longrightarrow> enemy_inv (Enemy_new w)"
  by (simp add: enemy_inv_def Enemy_new_def)

lemma enemy_inv_update:
  assumes "enemy_inv e" and "\<not> defeated e"
  shows "enemy_inv (updateCompletionPercentage e)"
proof -
  from assms have lt: "typed e + 1 \<le> length (word e)" and ne: "length (word e) \<noteq> 0"
    by (auto simp: enemy_inv_def)
  from percentOf_part(1) [OF lt ne] assms lt show ?thesis
    by (auto simp: enemy_inv_def)
qed

lemma enemy_inv_advance: "enemy_inv e \<Longrightarrow> protocol n e \<Longrightarrow> enemy_inv (advance n e)"
  by (induction n arbitrary: e) (auto simp: enemy_inv_update)

lemma protocol_prefix: "protocol n e \<Longrightarrow> m \<le> n \<Longrightarrow> protocol m e"
proof (induction n arbitrary: e m)
  case 0
  then show ?case by simp
next
  case (Suc n)
  show ?case
  proof (cases m)
    case 0
    then show ?thesis by simp
  next
    case (Suc k)
    with Suc.prems Suc.IH [of "updateCompletionPercentage e" k] show ?thesis by simp
  qed
qed

lemma protocol_cat: "protocol 3 (Enemy_new ''cat'')"
  by (simp add: numeral_3_eq_3 Enemy_new_def charAt_def)

text \<open>
  The rounding is the one of the program: on a word of twenty letters, eleven advances
  store 55.00000000000001, the double next above 55.
\<close>

lemma advance_completed:
  "completed (advance (Suc n) e) = percentOf (typed e + Suc n) (length (word e))"
  by (induction n arbitrary: e) simp_all

lemma fl_eleven_twentieths: "fl (fl (11 / 20) * 100) = 55 + 1 / 2 ^ 47"
  by code_simp

lemma fl_half: "fl (fl (1 / 2) * 100) = 50"
  by code_simp

lemma eleven_of_twenty:
  "completed (advance 11 (Enemy_new ''abcdefghijklmnopqrst'')) = Num (55 + 1 / 2 ^ 47)"
proof -
  have "completed (advance (Suc 10) (Enemy_new ''abcdefghijklmnopqrst'')) = percentOf 11 20"
    by (simp only: advance_completed) (simp add: eval_nat_numeral)
  moreover have "(55 + 1 / 2 ^ 47 :: real) < 2 ^ 1024"
    by simp
  ultimately show ?thesis
    by (simp add: percentOf_def toNumber_def fl_eleven_twentieths)
qed

text \<open>
  Claim C3, as stated: after any number of protocol-conforming advances the field
  \<open>completed\<close> equals \<open>typed / length word\<close> and lies between 0 and 1. It fails after one
  advance on the word "ab": the field holds 50, a percentage, where the ratio is 1/2.
  On the empty word the first advance, which the protocol allows, divides by zero and
  stores \<open>Infinity\<close>, which lies in no interval. And the percentage is a rounded one:
  eleven advances on a word of twenty letters store the double next above 55.
\<close>

theorem completed_not_ratio:
  "\<not> (completed (advance 1 (Enemy_new ''ab'')) = completionRatio_spec (advance 1 (Enemy_new ''ab''))
      \<and> inRange 0 1 (completed (advance 1 (Enemy_new ''ab''))))
   \<and> completed (advance 1 (Enemy_new ''ab'')) = Num 50
   \<and> protocol 1 (Enemy_new [])
   \<and> completed (advance 1 (Enemy_new [])) = Infinity
   \<and> completed (advance 11 (Enemy_new ''abcdefghijklmnopqrst'')) = Num (55 + 1 / 2 ^ 47)"
proof -
  have "completed (advance (Suc 0) (Enemy_new ''ab'')) = percentOf 1 2"
    by (simp only: advance_completed) (simp add: eval_nat_numeral)
  then have ab: "completed (advance 1 (Enemy_new ''ab'')) = Num 50"
    by (simp add: percentOf_def toNumber_def fl_half)
  have "completed (advance (Suc 0) (Enemy_new [])) = percentOf 1 0"
    by (simp only: advance_completed) (simp add: eval_nat_numeral)
  then have e: "completed (advance 1 (Enemy_new [])) = Infinity"
    by (simp add: percentOf_def)
  have p: "protocol 1 (Enemy_new [])"
    by (simp add: Enemy_new_def)
  from ab have "\<not> inRange 0 1 (completed (advance 1 (Enemy_new ''ab'')))"
    by simp
  with ab e p eleven_of_twenty show ?thesis by blast
qed

text \<open>
  Claim C3, amended: for an enemy over a non-empty word, after any number of advances
  made under the protocol (never on a defeated enemy), \<open>completed\<close> is the double that
  \<open>(typed / length word) * 100\<close> evaluates to, a percentage: it lies between 0 and 100
  and differs from the exact value of \<open>typed / length word * 100\<close> by at most \<open>2^-45\<close>.
\<close>

theorem completed_is_percentage:
  assumes "w \<noteq> []" and "protocol n (Enemy_new w)"
  shows "completed (advance n (Enemy_new w))
           = Num (fl (fl (real (typed (advance n (Enemy_new w)))
                           / real (length (word (advance n (Enemy_new w))))) * 100))
         \<and> inRange 0 100 (completed (advance n (Enemy_new w)))
         \<and> closeTo (1 / 2 ^ 45)
             (real (typed (advance n (Enemy_new w)))
                / real (length (word (advance n (Enemy_new w)))) * 100)
             (completed (advance n (Enemy_new w)))"
proof -
  have inv: "enemy_inv (advance n (Enemy_new w))"
    using assms by (simp add: enemy_inv_new enemy_inv_advance)
  then have eq: "completed (advance n (Enemy_new w))
      = Num (fl (fl (real n / real (length w)) * 100))"
    and le: "n \<le> length w"
    by (simp_all add: enemy_inv_def)
  from assms(1) have ne: "length w \<noteq> 0" by simp
  note P = percentOf_part [OF le ne]
  from eq P(2) P(3) P(4) show ?thesis by simp
qed

theorem completed_is_percentage_witness:
  "''cat'' \<noteq> [] \<and> protocol 3 (Enemy_new ''cat'')
   \<and> completed (advance 3 (Enemy_new ''cat'')) = Num 100
   \<and> inRange 0 100 (completed (advance 3 (Enemy_new ''cat'')))
   \<and> closeTo (1 / 2 ^ 45) 100 (completed (advance 3 (Enemy_new ''cat'')))"
  using completed_is_percentage [OF _ protocol_cat] protocol_cat
  by simp

text \<open>
  Claim C6: for an enemy (over a non-empty word, as the data model has it) and every
  sequence of advances, each made on an enemy that is not yet defeated, as \<open>advance\<close>
  requires and as the controller does, \<open>typed\<close> never exceeds the length of the word,
  \<open>defeated\<close> is true exactly when \<open>typed\<close> equals that length, and \<open>completed\<close>
  never decreases along the sequence.
\<close>

theorem enemy_progress:
  assumes "w \<noteq> []" and "protocol n (Enemy_new w)"
  shows "typed (advance n (Enemy_new w)) \<le> length w
         \<and> (defeated (advance n (Enemy_new w)) \<longleftrightarrow> typed (advance n (Enemy_new w)) = length w)
         \<and> (\<forall>m\<le>n. jsnum_le (completed (advance m (Enemy_new w)))
                            (completed (advance n (Enemy_new w))))"
proof -
  have inv: "enemy_inv (advance k (Enemy_new w))" if "k \<le> n" for k
    using assms that by (simp add: enemy_inv_new enemy_inv_advance protocol_prefix)
  have pct: "completed (advance k (Enemy_new w)) = Num (fl (fl (real k / real (length w)) * 100))"
    if "k \<le> n" for k
    using inv [OF that] by (simp add: enemy_inv_def)
  have mono: "jsnum_le (completed (advance m (Enemy_new w))) (completed (advance n (Enemy_new w)))"
    if "m \<le> n" for m
    using that percentOf_mono [OF that, of "length w"] by (simp add: pct)
  from inv [of n] mono show ?thesis
    by (simp add: enemy_inv_def)
qed

theorem enemy_progress_witness:
  "''cat'' \<noteq> [] \<and> protocol 3 (Enemy_new ''cat'')
   \<and> typed (advance 3 (Enemy_new ''cat'')) = 3
   \<and> defeated (advance 3 (Enemy_new ''cat''))
   \<and> jsnum_le (completed (advance 0 (Enemy_new ''cat''))) (completed (advance 3 (Enemy_new ''cat'')))"
proof -
  have ne: "''cat'' \<noteq> []" by simp
  note th = enemy_progress [OF ne protocol_cat]
  from th have "\<forall>m\<le>3. jsnum_le (completed (advance m (Enemy_new ''cat'')))
                            (completed (advance 3 (Enemy_new ''cat'')))"
    by blast
  then have "jsnum_le (completed (advance 0 (Enemy_new ''cat''))) (completed (advance 3 (Enemy_new ''cat'')))"
    by blast
  with th protocol_cat show ?thesis by simp
qed

section \<open>Queue: bulk insert\<close>

lemma setOf_set: "set (setOf acc xs) = set acc \<union> set xs"
  by (induction xs arbitrary: acc) auto

lemma setOf_distinct: "distinct acc \<Longrightarrow> distinct (setOf acc xs)"
  by (induction xs arbitrary: acc) auto

lemma setOf_append: "\<exists>S. setOf acc xs = acc @ S \<and> subseq S xs"
proof (induction xs arbitrary: acc)
  case Nil
  show ?case by simp
next
  case (Cons x xs)
  show ?case
  proof (cases "x \<in> set acc")
    case True
    from Cons.IH [of acc] obtain S where "setOf acc xs = acc @ S" "subseq S xs" by blast
    with True show ?thesis by (auto intro: subseq_Cons')
  next
    case False
    from Cons.IH [of "acc @ [x]"] obtain S where "setOf (acc @ [x]) xs = (acc @ [x]) @ S" "subseq S xs"
      by blast
    with False have "setOf acc (x # xs) = acc @ (x # S) \<and> subseq (x # S) (x # xs)" by simp
    then show ?thesis by blast
  qed
qed

lemma setOf_id: "distinct (acc @ xs) \<Longrightarrow> setOf acc xs = acc @ xs"
  by (induction xs arbitrary: acc) auto

lemma enqueue_distinct_batch: "distinct B \<Longrightarrow> enqueue B q = q\<lparr> size_q := size_q q + int (length B), queue := queue q @ B \<rparr>"
  using setOf_id [of "[]" B] by (simp add: enqueue_def)

subsection \<open>The batch built by \<open>_loadIntoQueue\<close>\<close>

lemma loadLoop_result:
  "loadLoop ws rnd needed i acc g = (err, B, g') \<Longrightarrow>
     (\<exists>H N. g' = g\<lparr> heap := H, nextAddr := N \<rparr>) \<and>
     nextAddr g \<le> nextAddr g' \<and>
     B = acc @ [nextAddr g ..< nextAddr g'] \<and>
     (\<forall>a < nextAddr g. heap g' a = heap g a) \<and>
     (\<forall>a. nextAddr g \<le> a \<and> a < nextAddr g' \<longrightarrow> (\<exists>w \<in> set ws. heap g' a = Enemy_new w)) \<and>
     (err = None \<longrightarrow> nextAddr g' = nextAddr g + nat (needed - int i))"
proof (induction ws rnd needed i acc g rule: loadLoop.induct)
  case (1 ws rnd needed i newEnemies g)
  have triv: "\<exists>H N. g = g\<lparr> heap := H, nextAddr := N \<rparr>"
    by (rule exI [of _ "heap g"], rule exI [of _ "nextAddr g"]) simp
  show ?case
  proof (cases "int i < needed")
    case False
    with "1.prems" have "err = None \<and> B = newEnemies \<and> g' = g"
      by (simp add: loadLoop.simps)
    then have "nextAddr g \<le> nextAddr g' \<and>
       B = newEnemies @ [nextAddr g ..< nextAddr g'] \<and>
       (\<forall>a < nextAddr g. heap g' a = heap g a) \<and>
       (\<forall>a. nextAddr g \<le> a \<and> a < nextAddr g' \<longrightarrow> (\<exists>w \<in> set ws. heap g' a = Enemy_new w)) \<and>
       (err = None \<longrightarrow> nextAddr g' = nextAddr g + nat (needed - int i))"
      using False by auto
    moreover from \<open>err = None \<and> B = newEnemies \<and> g' = g\<close> triv
    have "\<exists>H N. g' = g\<lparr> heap := H, nextAddr := N \<rparr>" by blast
    ultimately show ?thesis by blast
  next
    case True
    show ?thesis
    proof (cases "wordAt ws (randomIndex (rnd i) (length ws))")
      case None
      with True "1.prems" have *: "err = Some TypeError \<and> B = newEnemies \<and> g' = g"
        by (simp add: loadLoop.simps)
      then have "nextAddr g \<le> nextAddr g' \<and>
         B = newEnemies @ [nextAddr g ..< nextAddr g'] \<and>
         (\<forall>a < nextAddr g. heap g' a = heap g a) \<and>
         (\<forall>a. nextAddr g \<le> a \<and> a < nextAddr g' \<longrightarrow> (\<exists>w \<in> set ws. heap g' a = Enemy_new w)) \<and>
         (err = None \<longrightarrow> nextAddr g' = nextAddr g + nat (needed - int i))"
        by auto
      moreover from * triv
      have "\<exists>H N. g' = g\<lparr> heap := H, nextAddr := N \<rparr>" by blast
      ultimately show ?thesis by blast
    next
      case (Some w)
      let ?g1 = "g\<lparr> heap := (heap g)(nextAddr g := Enemy_new w), nextAddr := nextAddr g + 1 \<rparr>"
      from Some have w: "w \<in> set ws"
        by (auto simp: wordAt_def split: if_splits)
      from True Some "1.prems"
      have "loadLoop ws rnd needed (i + 1) (newEnemies @ [nextAddr g]) ?g1 = (err, B, g')"
        by (simp add: loadLoop.simps)
      note IH = "1.IH" [OF True Some this]
      from IH [THEN conjunct1] obtain H N where "g' = ?g1\<lparr> heap := H, nextAddr := N \<rparr>"
        by blast
      then have "g' = g\<lparr> heap := H, nextAddr := N \<rparr>"
        by simp
      then have 1: "\<exists>H N. g' = g\<lparr> heap := H, nextAddr := N \<rparr>"
        by blast
      from IH [THEN conjunct2]
      have le: "nextAddr g + 1 \<le> nextAddr g'"
        and B: "B = (newEnemies @ [nextAddr g]) @ [nextAddr g + 1 ..< nextAddr g']"
        and old: "\<forall>a < nextAddr g + 1. heap g' a = ((heap g)(nextAddr g := Enemy_new w)) a"
        and new: "\<forall>a. nextAddr g + 1 \<le> a \<and> a < nextAddr g' \<longrightarrow> (\<exists>w \<in> set ws. heap g' a = Enemy_new w)"
        and cnt: "err = None \<longrightarrow> nextAddr g' = nextAddr g + 1 + nat (needed - int (i + 1))"
        by simp_all
      have 2: "B = newEnemies @ [nextAddr g ..< nextAddr g']"
        using B le by (simp add: upt_conv_Cons)
      have 3: "\<forall>a < nextAddr g. heap g' a = heap g a"
        using old by simp
      have 4: "\<forall>a. nextAddr g \<le> a \<and> a < nextAddr g' \<longrightarrow> (\<exists>w \<in> set ws. heap g' a = Enemy_new w)"
      proof (intro allI impI)
        fix a assume a: "nextAddr g \<le> a \<and> a < nextAddr g'"
        show "\<exists>w \<in> set ws. heap g' a = Enemy_new w"
        proof (cases "a = nextAddr g")
          case True
          with old w show ?thesis by auto
        next
          case False
          with a new show ?thesis by simp
        qed
      qed
      have 5: "err = None \<longrightarrow> nextAddr g' = nextAddr g + nat (needed - int i)"
        using cnt True by auto
      from le have 0: "nextAddr g \<le> nextAddr g'" by simp
      from 0 1 2 3 4 5 show ?thesis by blast
    qed
  qed
qed

lemma loadIntoQueue_result:
  assumes "loadIntoQueue ws rnd g = (err, g')"
  shows "(\<exists>H N Q. g' = g\<lparr> heap := H, nextAddr := N, enemyQueue := Q \<rparr>) \<and>
     nextAddr g \<le> nextAddr g' \<and>
     (\<forall>a < nextAddr g. heap g' a = heap g a) \<and>
     (\<forall>a. nextAddr g \<le> a \<and> a < nextAddr g' \<longrightarrow> (\<exists>w \<in> set ws. heap g' a = Enemy_new w)) \<and>
     (err \<noteq> None \<longrightarrow> enemyQueue g' = enemyQueue g) \<and>
     (err = None \<longrightarrow>
           nextAddr g' = nextAddr g + nat (queueLimit g - size_q (enemyQueue g)) \<and>
           queue (enemyQueue g') = queue (enemyQueue g) @ [nextAddr g ..< nextAddr g'] \<and>
           size_q (enemyQueue g') = size_q (enemyQueue g) + int (nextAddr g' - nextAddr g))"
proof -
  obtain e B g1 where L: "loadLoop ws rnd (queueLimit g - size_q (enemyQueue g)) 0 [] g = (e, B, g1)"
    by (metis prod_cases3)
  note R = loadLoop_result [OF L]
  from R obtain H N where g1: "g1 = g\<lparr> heap := H, nextAddr := N \<rparr>" by blast
  from R have B: "B = [nextAddr g ..< nextAddr g1]" by simp
  have q1: "enemyQueue g1 = enemyQueue g" by (simp add: g1)
  from R have R': "nextAddr g \<le> nextAddr g1 \<and>
     (\<forall>a < nextAddr g. heap g1 a = heap g a) \<and>
     (\<forall>a. nextAddr g \<le> a \<and> a < nextAddr g1 \<longrightarrow> (\<exists>w \<in> set ws. heap g1 a = Enemy_new w))"
    by blast
  show ?thesis
  proof (cases e)
    case (Some x)
    with assms L have err: "err = Some x" and g': "g' = g1"
      by (auto simp: loadIntoQueue_def)
    have "g' = g\<lparr> heap := H, nextAddr := N, enemyQueue := enemyQueue g \<rparr>"
      by (simp add: g' g1)
    then have 1: "\<exists>H N Q. g' = g\<lparr> heap := H, nextAddr := N, enemyQueue := Q \<rparr>"
      by blast
    from R' q1 err have "nextAddr g \<le> nextAddr g' \<and>
     (\<forall>a < nextAddr g. heap g' a = heap g a) \<and>
     (\<forall>a. nextAddr g \<le> a \<and> a < nextAddr g' \<longrightarrow> (\<exists>w \<in> set ws. heap g' a = Enemy_new w)) \<and>
     (err \<noteq> None \<longrightarrow> enemyQueue g' = enemyQueue g) \<and>
     (err = None \<longrightarrow>
           nextAddr g' = nextAddr g + nat (queueLimit g - size_q (enemyQueue g)) \<and>
           queue (enemyQueue g') = queue (enemyQueue g) @ [nextAddr g ..< nextAddr g'] \<and>
           size_q (enemyQueue g') = size_q (enemyQueue g) + int (nextAddr g' - nextAddr g))"
      unfolding g' by simp
    with 1 show ?thesis by blast
  next
    case None
    with assms L have err: "err = None"
      and g': "g' = g1\<lparr> enemyQueue := enqueue B (enemyQueue g1) \<rparr>"
      by (auto simp: loadIntoQueue_def)
    have "g' = g\<lparr> heap := H, nextAddr := N, enemyQueue := enqueue B (enemyQueue g1) \<rparr>"
      unfolding g' by (simp add: g1)
    then have 1: "\<exists>H N Q. g' = g\<lparr> heap := H, nextAddr := N, enemyQueue := Q \<rparr>"
      by blast
    have hp: "heap g' = heap g1" and na: "nextAddr g' = nextAddr g1"
      and eq: "enemyQueue g' = enqueue B (enemyQueue g)"
      by (simp_all add: g' q1)
    from R None have n: "nextAddr g1 = nextAddr g + nat (queueLimit g - size_q (enemyQueue g))"
      by simp
    have "distinct B" by (simp add: B)
    then have Q: "enqueue B (enemyQueue g)
        = (enemyQueue g)\<lparr> size_q := size_q (enemyQueue g) + int (length B),
                            queue := queue (enemyQueue g) @ B \<rparr>"
      by (rule enqueue_distinct_batch)
    from R' n have "nextAddr g \<le> nextAddr g' \<and>
     (\<forall>a < nextAddr g. heap g' a = heap g a) \<and>
     (\<forall>a. nextAddr g \<le> a \<and> a < nextAddr g' \<longrightarrow> (\<exists>w \<in> set ws. heap g' a = Enemy_new w)) \<and>
     (err \<noteq> None \<longrightarrow> enemyQueue g' = enemyQueue g) \<and>
     (err = None \<longrightarrow>
           nextAddr g' = nextAddr g + nat (queueLimit g - size_q (enemyQueue g)) \<and>
           queue (enemyQueue g') = queue (enemyQueue g) @ [nextAddr g ..< nextAddr g'] \<and>
           size_q (enemyQueue g') = size_q (enemyQueue g) + int (nextAddr g' - nextAddr g))"
      unfolding hp na eq Q by (simp add: err B)
    with 1 show ?thesis by blast
  qed
qed

lemma loadLoop_two:
  "loadLoop [''cat''] (\<lambda>_. 0) 2 0 [] Game_new
     = (None, [0, 1],
        Game_new\<lparr> heap := (\<lambda>_. Enemy_new [])(0 := Enemy_new ''cat'', 1 := Enemy_new ''cat''),
                  nextAddr := 2 \<rparr>)"
  by (simp add: loadLoop.simps [of _ _ _ 0] loadLoop.simps [of _ _ _ "Suc 0"]
        loadLoop.simps [of _ _ _ "Suc (Suc 0)"] loadLoop.simps [of _ _ _ 2]
        wordAt_def randomIndex_def Game_new_def)

text \<open>
  Claim C4 says that the queue receives the batch de-duplicated by value equality, so
  that of two instances that carry the same word only one is stored. \<open>enqueue\<close> does
  pass the batch through a Set, but a Set of objects compares by identity and every
  instance of the batch is fresh: the two instances that \<open>_loadIntoQueue\<close> builds from
  the one-word dictionary "cat" are both stored, where the bulk insert of the
  specification stores one.
\<close>

theorem same_word_instances_both_stored:
  "enqueue (fst (snd (loadLoop [''cat''] (\<lambda>_. 0) 2 0 [] Game_new))) Queue_new
     \<noteq> enqueueBatch_spec (heap (snd (snd (loadLoop [''cat''] (\<lambda>_. 0) 2 0 [] Game_new))))
         (fst (snd (loadLoop [''cat''] (\<lambda>_. 0) 2 0 [] Game_new))) Queue_new"
  by (simp add: loadLoop_two enqueue_def enqueueBatch_spec_def Queue_new_def)

text \<open>
  What \<open>enqueue\<close> does with any batch: the Set drops the repeated occurrences of one
  and the same instance and nothing else, so the batch that \<open>_loadIntoQueue\<close> builds,
  \<open>needed\<close> distinct instances, is appended whole.
\<close>

lemma enqueue_by_identity:
  "size_q (enqueue B q) = size_q q + int (length B)
   \<and> (\<exists>S. queue (enqueue B q) = queue q @ S \<and> distinct S \<and> set S = set B \<and> subseq S B)
   \<and> (distinct B \<longrightarrow> queue (enqueue B q) = queue q @ B)
   \<and> (loadLoop ws rnd needed 0 [] g = (None, B, g') \<longrightarrow> distinct B \<and> length B = nat needed)"
proof -
  from setOf_append [of "[]" B] obtain S where S: "setOf [] B = S" "subseq S B"
    by auto
  from setOf_distinct [of "[]" B] S have "distinct S" by simp
  moreover from setOf_set [of "[]" B] S have "set S = set B" by simp
  ultimately have 1: "\<exists>S. queue (enqueue B q) = queue q @ S \<and> distinct S \<and> set S = set B \<and> subseq S B"
    using S by (auto simp: enqueue_def)
  have 2: "distinct B \<longrightarrow> queue (enqueue B q) = queue q @ B"
    by (simp add: enqueue_distinct_batch)
  have 3: "loadLoop ws rnd needed 0 [] g = (None, B, g') \<longrightarrow> distinct B \<and> length B = nat needed"
  proof
    assume "loadLoop ws rnd needed 0 [] g = (None, B, g')"
    from loadLoop_result [OF this]
    have "B = [nextAddr g ..< nextAddr g']" "nextAddr g' = nextAddr g + nat needed"
      by simp_all
    then show "distinct B \<and> length B = nat needed" by simp
  qed
  from 1 2 3 show ?thesis by (simp add: enqueue_def)
qed

lemma enqueue_two_instances:
  "distinct [0, 1 :: nat]
   \<and> loadLoop [''cat''] (\<lambda>_. 0) 2 0 [] Game_new
       = (None, [0, 1],
          Game_new\<lparr> heap := (\<lambda>_. Enemy_new [])(0 := Enemy_new ''cat'', 1 := Enemy_new ''cat''),
                    nextAddr := 2 \<rparr>)
   \<and> size_q (enqueue [0, 1] Queue_new) = 2
   \<and> queue (enqueue [0, 1] Queue_new) = [0, 1]"
  using enqueue_by_identity [of "[0, 1]" Queue_new "[''cat'']" "\<lambda>_. 0" 2 Game_new
      "Game_new\<lparr> heap := (\<lambda>_. Enemy_new [])(0 := Enemy_new ''cat'', 1 := Enemy_new ''cat''), nextAddr := 2 \<rparr>"]
  by (simp add: loadLoop_two Queue_new_def)

section \<open>The random draw of \<open>_loadIntoQueue\<close>\<close>

text \<open>
  Claim C8 says that every index of the dictionary, the last one included, can be drawn.
  The index is \<open>Math.floor(Math.random() * (words.length - 1))\<close>: for a dictionary of
  at least two words and every value of \<open>Math.random()\<close>, which lies in [0, 1), the
  index drawn is in range and below the last index.
\<close>

theorem last_word_never_drawn:
  assumes "0 \<le> r" and "r < 1" and "2 \<le> length ws"
  shows "randomIndex r (length ws) < int (length ws) - 1
         \<and> wordAt ws (randomIndex r (length ws)) \<noteq> None"
proof -
  from assms have "r * (real (length ws) - 1) < real (length ws) - 1"
    by simp
  then have lt: "randomIndex r (length ws) < int (length ws) - 1"
    by (simp add: randomIndex_def floor_less_iff)
  from assms have "0 \<le> r * (real (length ws) - 1)"
    by simp
  then have "0 \<le> randomIndex r (length ws)"
    by (simp add: randomIndex_def)
  with lt show ?thesis by (simp add: wordAt_def)
qed

theorem last_word_never_drawn_witness:
  "(0::real) \<le> 999 / 1000 \<and> (999 / 1000 :: real) < 1 \<and> 2 \<le> length [''cat'', ''dog'']
   \<and> wordAt [''cat'', ''dog''] (randomIndex (999 / 1000) (length [''cat'', ''dog''])) = Some ''cat''"
  using last_word_never_drawn [of "999 / 1000" "[''cat'', ''dog'']"]
  by (simp add: wordAt_def randomIndex_def)

section \<open>Timers: what setting and clearing intervals leaves alone\<close>

lemma clearInterval_fields [simp]:
  "difficultyLevel (clearInterval h g) = difficultyLevel g"
  "lives (clearInterval h g) = lives g"
  "activeEnemies (clearInterval h g) = activeEnemies g"
  "enemyQueue (clearInterval h g) = enemyQueue g"
  "enemySpawnDelay (clearInterval h g) = enemySpawnDelay g"
  "loadQueueDelay (clearInterval h g) = loadQueueDelay g"
  "difficultyIncreaseDelay (clearInterval h g) = difficultyIncreaseDelay g"
  "nextModifier (clearInterval h g) = nextModifier g"
  "score (clearInterval h g) = score g"
  "streak (clearInterval h g) = streak g"
  "currentTarget (clearInterval h g) = currentTarget g"
  "spawnInterval (clearInterval h g) = spawnInterval g"
  "enqueueInterval (clearInterval h g) = enqueueInterval g"
  "difficultyInterval (clearInterval h g) = difficultyInterval g"
  "queueLimit (clearInterval h g) = queueLimit g"
  "activeEnemyLimit (clearInterval h g) = activeEnemyLimit g"
  "heap (clearInterval h g) = heap g"
  "nextAddr (clearInterval h g) = nextAddr g"
  "messages (clearInterval h g) = messages g"
  by (simp_all add: clearInterval_def split: option.splits)

lemma clearInterval_timers: "set (timers (clearInterval h g)) \<subseteq> set (timers g)"
  by (auto simp: clearInterval_def split: option.splits)

lemma setIntervals_fields [simp]:
  "difficultyLevel (setIntervals g) = difficultyLevel g"
  "lives (setIntervals g) = lives g"
  "activeEnemies (setIntervals g) = activeEnemies g"
  "enemyQueue (setIntervals g) = enemyQueue g"
  "enemySpawnDelay (setIntervals g) = enemySpawnDelay g"
  "loadQueueDelay (setIntervals g) = loadQueueDelay g"
  "difficultyIncreaseDelay (setIntervals g) = difficultyIncreaseDelay g"
  "nextModifier (setIntervals g) = nextModifier g"
  "score (setIntervals g) = score g"
  "streak (setIntervals g) = streak g"
  "currentTarget (setIntervals g) = currentTarget g"
  "queueLimit (setIntervals g) = queueLimit g"
  "activeEnemyLimit (setIntervals g) = activeEnemyLimit g"
  "heap (setIntervals g) = heap g"
  "nextAddr (setIntervals g) = nextAddr g"
  "messages (setIntervals g) = messages g"
  by (simp_all add: setIntervals_def setInterval_def Let_def)

section \<open>The difficulty scaler\<close>

lemma scaling_increaseDifficulty:
  "scaling (snd (increaseDifficulty g)) = scale_step (scaling g)"
  by (simp add: scaling_def increaseDifficulty_def updateDisplay_message_def Let_def
      split: jsval.splits)

lemma ticks_Suc_right: "ticks (Suc n) g = snd (increaseDifficulty (ticks n g))"
  by (induction n arbitrary: g) simp_all

lemma ticks_add: "ticks (n + m) g = ticks m (ticks n g)"
  by (induction n arbitrary: g) simp_all

lemma scaling_ticks: "scaling (ticks n g) = (scale_step ^^ n) (scaling g)"
proof (induction n)
  case 0
  show ?case by simp
next
  case (Suc n)
  have "scaling (ticks (Suc n) g) = scale_step (scaling (ticks n g))"
    by (simp only: ticks_Suc_right scaling_increaseDifficulty)
  with Suc show ?case by simp
qed

lemma scaling_Game_new: "scaling Game_new = (Str ''interval'', 2500, 10000, 30, 10, 0)"
  by (simp add: scaling_def Game_new_def)

lemma scaling_ticks_8: "scaling (ticks 8 Game_new) = (Str ''interval'', 500, 6000, 50, 14, 4)"
  by (simp only: scaling_ticks scaling_Game_new) (simp add: eval_nat_numeral)

lemma scaling_ticks_12: "scaling (ticks 12 Game_new) = (Str ''interval'', 500, 6000, 60, 16, 5)"
  by (simp only: scaling_ticks scaling_Game_new) (simp add: eval_nat_numeral)

lemma scaling_ticks_13: "scaling (ticks 13 Game_new) = (Null, 500, 6000, 60, 16, 5)"
  by (simp only: scaling_ticks scaling_Game_new) (simp add: eval_nat_numeral)

lemma scaling_fields:
  "scaling g = (m, sd, lq, ql, al, lv) \<longleftrightarrow>
     nextModifier g = m \<and> enemySpawnDelay g = sd \<and> loadQueueDelay g = lq \<and>
     queueLimit g = ql \<and> activeEnemyLimit g = al \<and> difficultyLevel g = lv"
  by (auto simp: scaling_def)

lemma scale_step_outcomes:
  assumes "scale_step (m, sd, lq, ql, al, lv) = (m', sd', lq', ql', al', lv')"
  shows "(sd' = sd \<and> ql' = ql \<and> lv' = lv)
       \<or> (sd > 500 \<and> sd' = sd - 500 \<and> ql' = ql \<and> lv' = lv + 1 / 2)
       \<or> (ql < 60 \<and> sd' = sd \<and> ql' = ql + 5 \<and> lv' = lv + 1 / 2)"
proof (cases "lv = 5")
  case True
  with assms show ?thesis by simp
next
  case lv: False
  show ?thesis
  proof (cases "m = Str ''interval''")
    case True
    with lv assms show ?thesis by (cases "sd > 500") simp_all
  next
    case i: False
    show ?thesis
    proof (cases "m = Str ''wordlimit''")
      case True
      with lv i assms show ?thesis by (cases "ql < 60") simp_all
    next
      case False
      with lv i assms show ?thesis by simp
    qed
  qed
qed

lemma increaseDifficulty_outcomes:
  "(enemySpawnDelay (snd (increaseDifficulty g)) = enemySpawnDelay g \<and>
    queueLimit (snd (increaseDifficulty g)) = queueLimit g \<and>
    difficultyLevel (snd (increaseDifficulty g)) = difficultyLevel g)
   \<or> (enemySpawnDelay g > 500 \<and>
       enemySpawnDelay (snd (increaseDifficulty g)) = enemySpawnDelay g - 500 \<and>
       queueLimit (snd (increaseDifficulty g)) = queueLimit g \<and>
       difficultyLevel (snd (increaseDifficulty g)) = difficultyLevel g + 1 / 2)
   \<or> (queueLimit g < 60 \<and>
       enemySpawnDelay (snd (increaseDifficulty g)) = enemySpawnDelay g \<and>
       queueLimit (snd (increaseDifficulty g)) = queueLimit g + 5 \<and>
       difficultyLevel (snd (increaseDifficulty g)) = difficultyLevel g + 1 / 2)"
proof -
  obtain m sd lq ql al lv where s: "scaling g = (m, sd, lq, ql, al, lv)"
    using prod_cases6 by blast
  obtain m' sd' lq' ql' al' lv'
    where s': "scale_step (m, sd, lq, ql, al, lv) = (m', sd', lq', ql', al', lv')"
    using prod_cases6 by blast
  from s have f: "enemySpawnDelay g = sd" "queueLimit g = ql" "difficultyLevel g = lv"
    by (simp_all add: scaling_fields)
  from s s' have "scaling (snd (increaseDifficulty g)) = (m', sd', lq', ql', al', lv')"
    by (simp only: scaling_increaseDifficulty)
  then have f': "enemySpawnDelay (snd (increaseDifficulty g)) = sd'"
    "queueLimit (snd (increaseDifficulty g)) = ql'"
    "difficultyLevel (snd (increaseDifficulty g)) = lv'"
    by (simp_all add: scaling_fields)
  from scale_step_outcomes [OF s'] show ?thesis
    unfolding f f' .
qed

lemma scaling_invI:
  assumes "500 \<le> enemySpawnDelay g" "enemySpawnDelay g \<le> 2500" "500 dvd enemySpawnDelay g"
    "30 \<le> queueLimit g" "queueLimit g \<le> 60" "5 dvd queueLimit g"
    "difficultyLevel g =
       real_of_int ((2500 - enemySpawnDelay g) div 500 + (queueLimit g - 30) div 5) / 2"
  shows "scaling_inv g"
  unfolding scaling_inv_def using assms by blast

lemma scaling_inv_step:
  assumes inv: "scaling_inv g"
  shows "scaling_inv (snd (increaseDifficulty g))"
proof -
  let ?g' = "snd (increaseDifficulty g)"
  from inv have i: "500 \<le> enemySpawnDelay g" "enemySpawnDelay g \<le> 2500"
    "500 dvd enemySpawnDelay g" "30 \<le> queueLimit g" "queueLimit g \<le> 60" "5 dvd queueLimit g"
    and l: "difficultyLevel g =
      real_of_int ((2500 - enemySpawnDelay g) div 500 + (queueLimit g - 30) div 5) / 2"
    unfolding scaling_inv_def by blast+
  from increaseDifficulty_outcomes [of g]
  consider (same) "enemySpawnDelay ?g' = enemySpawnDelay g" "queueLimit ?g' = queueLimit g"
      "difficultyLevel ?g' = difficultyLevel g"
    | (interval) "enemySpawnDelay g > 500" "enemySpawnDelay ?g' = enemySpawnDelay g - 500"
      "queueLimit ?g' = queueLimit g" "difficultyLevel ?g' = difficultyLevel g + 1 / 2"
    | (wordlimit) "queueLimit g < 60" "enemySpawnDelay ?g' = enemySpawnDelay g"
      "queueLimit ?g' = queueLimit g + 5" "difficultyLevel ?g' = difficultyLevel g + 1 / 2"
    by blast
  then show ?thesis
  proof cases
    case same
    show ?thesis
      by (rule scaling_invI) (simp_all only: same i l)
  next
    case interval
    from i(3) obtain k where k: "enemySpawnDelay g = 500 * k"
      by (rule dvdE)
    with interval(1) have "2 \<le> k"
      by linarith
    with k have a1: "500 \<le> enemySpawnDelay g - 500"
      by linarith
    from i(2) have a2: "enemySpawnDelay g - 500 \<le> 2500"
      by linarith
    from i(3) have a3: "500 dvd (enemySpawnDelay g - 500)"
      by (rule dvd_diff) simp
    have "2500 - (enemySpawnDelay g - 500) = (2500 - enemySpawnDelay g) + 500"
      by simp
    then have a4: "(2500 - (enemySpawnDelay g - 500)) div 500 = (2500 - enemySpawnDelay g) div 500 + 1"
      by (simp only: div_add_self2)
    have "difficultyLevel g + 1 / 2 =
      real_of_int ((2500 - enemySpawnDelay g) div 500 + 1 + (queueLimit g - 30) div 5) / 2"
      unfolding l by simp
    then have a5: "difficultyLevel g + 1 / 2 =
      real_of_int ((2500 - (enemySpawnDelay g - 500)) div 500 + (queueLimit g - 30) div 5) / 2"
      by (simp only: a4)
    show ?thesis
      by (rule scaling_invI) (simp_all only: interval a1 a2 a3 a5 i)
  next
    case wordlimit
    from i(4) have b1: "30 \<le> queueLimit g + 5"
      by linarith
    from i(6) obtain k where k: "queueLimit g = 5 * k"
      by (rule dvdE)
    with wordlimit(1) have "k \<le> 11"
      by linarith
    with k have b2: "queueLimit g + 5 \<le> 60"
      by linarith
    from i(6) have b3: "5 dvd (queueLimit g + 5)"
      by (rule dvd_add) simp
    have "queueLimit g + 5 - 30 = (queueLimit g - 30) + 5"
      by simp
    then have b4: "(queueLimit g + 5 - 30) div 5 = (queueLimit g - 30) div 5 + 1"
      by (simp only: div_add_self2)
    have "difficultyLevel g + 1 / 2 =
      real_of_int ((2500 - enemySpawnDelay g) div 500 + ((queueLimit g - 30) div 5 + 1)) / 2"
      unfolding l by simp
    then have b5: "difficultyLevel g + 1 / 2 =
      real_of_int ((2500 - enemySpawnDelay g) div 500 + (queueLimit g + 5 - 30) div 5) / 2"
      by (simp only: b4)
    show ?thesis
      by (rule scaling_invI) (simp_all only: wordlimit b1 b2 b3 b5 i)
  qed
qed

lemma scaling_inv_level:
  assumes "scaling_inv g"
  shows "difficultyLevel g \<le> 5"
proof -
  from assms have i: "500 \<le> enemySpawnDelay g" "queueLimit g \<le> 60"
    and l: "difficultyLevel g =
       real_of_int ((2500 - enemySpawnDelay g) div 500 + (queueLimit g - 30) div 5) / 2"
    by (simp_all add: scaling_inv_def)
  from i(1) have "(2500 - enemySpawnDelay g) div 500 \<le> 2000 div 500"
    by (intro zdiv_mono1) simp_all
  then have "(2500 - enemySpawnDelay g) div 500 \<le> 4"
    by simp
  moreover from i(2) have "(queueLimit g - 30) div 5 \<le> 30 div 5"
    by (intro zdiv_mono1) simp_all
  then have "(queueLimit g - 30) div 5 \<le> 6"
    by simp
  ultimately have "(2500 - enemySpawnDelay g) div 500 + (queueLimit g - 30) div 5 \<le> 10"
    by linarith
  then have "real_of_int ((2500 - enemySpawnDelay g) div 500 + (queueLimit g - 30) div 5) \<le> 10"
    by linarith
  with l show ?thesis by simp
qed

lemma scaling_inv_ticks: "scaling_inv g \<Longrightarrow> scaling_inv (ticks n g)"
  by (induction n arbitrary: g) (simp_all add: scaling_inv_step)

lemma level_step_mono: "difficultyLevel g \<le> difficultyLevel (snd (increaseDifficulty g))"
  using increaseDifficulty_outcomes [of g] by linarith

lemma level_ticks_mono: "difficultyLevel g \<le> difficultyLevel (ticks m g)"
proof (induction m arbitrary: g)
  case 0
  show ?case by simp
next
  case (Suc m)
  have "difficultyLevel g \<le> difficultyLevel (snd (increaseDifficulty g))"
    by (rule level_step_mono)
  also have "\<dots> \<le> difficultyLevel (ticks m (snd (increaseDifficulty g)))"
    by (rule Suc.IH)
  finally show ?case by simp
qed

text \<open>What a tick leaves alone once the level is 5.\<close>

lemma tick_at_max:
  assumes "difficultyLevel g = 5"
  shows "enemySpawnDelay (snd (increaseDifficulty g)) = enemySpawnDelay g"
    and "loadQueueDelay (snd (increaseDifficulty g)) = loadQueueDelay g"
    and "difficultyIncreaseDelay (snd (increaseDifficulty g)) = difficultyIncreaseDelay g"
    and "queueLimit (snd (increaseDifficulty g)) = queueLimit g"
    and "activeEnemyLimit (snd (increaseDifficulty g)) = activeEnemyLimit g"
    and "difficultyLevel (snd (increaseDifficulty g)) = 5"
    and "set (timers (snd (increaseDifficulty g))) \<subseteq> set (timers g)"
proof -
  from assms have eq: "snd (increaseDifficulty g)
      = clearInterval (difficultyInterval g) (g\<lparr> nextModifier := Null \<rparr>)"
    by (simp add: increaseDifficulty_def)
  show "enemySpawnDelay (snd (increaseDifficulty g)) = enemySpawnDelay g"
    and "loadQueueDelay (snd (increaseDifficulty g)) = loadQueueDelay g"
    and "difficultyIncreaseDelay (snd (increaseDifficulty g)) = difficultyIncreaseDelay g"
    and "queueLimit (snd (increaseDifficulty g)) = queueLimit g"
    and "activeEnemyLimit (snd (increaseDifficulty g)) = activeEnemyLimit g"
    and "difficultyLevel (snd (increaseDifficulty g)) = 5"
    unfolding eq using assms by simp_all
  show "set (timers (snd (increaseDifficulty g))) \<subseteq> set (timers g)"
    unfolding eq using clearInterval_timers [of "difficultyInterval g" "g\<lparr> nextModifier := Null \<rparr>"]
    by simp
qed

lemma ticks_at_max:
  "difficultyLevel g = 5 \<Longrightarrow>
     enemySpawnDelay (ticks m g) = enemySpawnDelay g \<and>
     loadQueueDelay (ticks m g) = loadQueueDelay g \<and>
     difficultyIncreaseDelay (ticks m g) = difficultyIncreaseDelay g \<and>
     queueLimit (ticks m g) = queueLimit g \<and>
     activeEnemyLimit (ticks m g) = activeEnemyLimit g \<and>
     difficultyLevel (ticks m g) = 5 \<and>
     set (timers (ticks m g)) \<subseteq> set (timers g)"
proof (induction m arbitrary: g)
  case 0
  then show ?case by simp
next
  case (Suc m)
  note t = tick_at_max [OF Suc.prems]
  from Suc.IH [OF t(6)] have IH: "enemySpawnDelay (ticks (Suc m) g) = enemySpawnDelay (snd (increaseDifficulty g))"
    "loadQueueDelay (ticks (Suc m) g) = loadQueueDelay (snd (increaseDifficulty g))"
    "difficultyIncreaseDelay (ticks (Suc m) g) = difficultyIncreaseDelay (snd (increaseDifficulty g))"
    "queueLimit (ticks (Suc m) g) = queueLimit (snd (increaseDifficulty g))"
    "activeEnemyLimit (ticks (Suc m) g) = activeEnemyLimit (snd (increaseDifficulty g))"
    "difficultyLevel (ticks (Suc m) g) = 5"
    "set (timers (ticks (Suc m) g)) \<subseteq> set (timers (snd (increaseDifficulty g)))"
    by simp_all
  from IH(7) t(7) have "set (timers (ticks (Suc m) g)) \<subseteq> set (timers g)"
    by (rule subset_trans)
  with IH(1-6) t(1-5) show ?case
    by (simp only: simp_thms)
qed

text \<open>
  Claim C5: over every sequence of difficulty ticks that starts with level 0, spawn delay
  2500 and queue limit 30, the level never exceeds 5 and never decreases, and once the
  level is 5 no further tick changes a delay or a limit (nor starts or re-times a timer).
\<close>

theorem difficulty_capped:
  assumes "difficultyLevel g = 0" and "enemySpawnDelay g = 2500" and "queueLimit g = 30"
  shows "difficultyLevel (ticks n g) \<le> 5
    \<and> difficultyLevel (ticks n g) \<le> difficultyLevel (ticks (n + m) g)
    \<and> (difficultyLevel (ticks n g) = 5 \<longrightarrow>
          enemySpawnDelay (ticks (n + m) g) = enemySpawnDelay (ticks n g) \<and>
          loadQueueDelay (ticks (n + m) g) = loadQueueDelay (ticks n g) \<and>
          difficultyIncreaseDelay (ticks (n + m) g) = difficultyIncreaseDelay (ticks n g) \<and>
          queueLimit (ticks (n + m) g) = queueLimit (ticks n g) \<and>
          activeEnemyLimit (ticks (n + m) g) = activeEnemyLimit (ticks n g) \<and>
          difficultyLevel (ticks (n + m) g) = 5 \<and>
          set (timers (ticks (n + m) g)) \<subseteq> set (timers (ticks n g)))"
proof -
  from assms have "scaling_inv g"
    by (simp add: scaling_inv_def)
  then have "scaling_inv (ticks n g)"
    by (rule scaling_inv_ticks)
  then have 1: "difficultyLevel (ticks n g) \<le> 5"
    by (rule scaling_inv_level)
  have 2: "difficultyLevel (ticks n g) \<le> difficultyLevel (ticks (n + m) g)"
    unfolding ticks_add by (rule level_ticks_mono)
  from 1 2 ticks_at_max [of "ticks n g" m] show ?thesis
    unfolding ticks_add by blast
qed

theorem difficulty_capped_witness:
  "difficultyLevel Game_new = 0 \<and> enemySpawnDelay Game_new = 2500 \<and> queueLimit Game_new = 30
   \<and> difficultyLevel (ticks 12 Game_new) = 5
   \<and> enemySpawnDelay (ticks (12 + 1) Game_new) = enemySpawnDelay (ticks 12 Game_new)
   \<and> queueLimit (ticks (12 + 1) Game_new) = queueLimit (ticks 12 Game_new)
   \<and> difficultyLevel (ticks (12 + 1) Game_new) = 5"
proof -
  have init: "difficultyLevel Game_new = 0" "enemySpawnDelay Game_new = 2500" "queueLimit Game_new = 30"
    by (simp_all add: Game_new_def)
  have top: "difficultyLevel (ticks 12 Game_new) = 5"
    using scaling_ticks_12 by (simp add: scaling_fields)
  from difficulty_capped [OF init, of 12 1] top init show ?thesis
    by blast
qed

text \<open>
  Claim C9: a tick on the "interval" axis with the spawn delay at its floor of 500 and the
  level below 5 changes neither delay nor the level, throws nothing, flips
  \<open>nextModifier\<close> to "wordlimit" and still emits the message of the "interval" axis.
\<close>

theorem tick_on_saturated_interval_axis:
  assumes "nextModifier g = Str ''interval''" and "enemySpawnDelay g = 500"
    and "difficultyLevel g < 5"
  shows "fst (increaseDifficulty g) = None
    \<and> enemySpawnDelay (snd (increaseDifficulty g)) = enemySpawnDelay g
    \<and> loadQueueDelay (snd (increaseDifficulty g)) = loadQueueDelay g
    \<and> difficultyLevel (snd (increaseDifficulty g)) = difficultyLevel g
    \<and> nextModifier (snd (increaseDifficulty g)) = Str ''wordlimit''
    \<and> messages (snd (increaseDifficulty g))
        = messages g @ [''Difficulty up - Intervals Decreased!'']"
  using assms
  by (simp add: increaseDifficulty_def updateDisplay_message_def Let_def toLowerCase_def
      lowerChar_def)

theorem tick_on_saturated_interval_axis_witness:
  "nextModifier (ticks 8 Game_new) = Str ''interval'' \<and> enemySpawnDelay (ticks 8 Game_new) = 500
   \<and> difficultyLevel (ticks 8 Game_new) < 5
   \<and> fst (increaseDifficulty (ticks 8 Game_new)) = None
   \<and> difficultyLevel (snd (increaseDifficulty (ticks 8 Game_new))) = 4
   \<and> nextModifier (snd (increaseDifficulty (ticks 8 Game_new))) = Str ''wordlimit''"
proof -
  have h: "nextModifier (ticks 8 Game_new) = Str ''interval''"
    "enemySpawnDelay (ticks 8 Game_new) = 500" "difficultyLevel (ticks 8 Game_new) = 4"
    using scaling_ticks_8 by (simp_all add: scaling_fields)
  then have lt: "difficultyLevel (ticks 8 Game_new) < 5" by simp
  from tick_on_saturated_interval_axis [OF h(1) h(2) lt] h lt show ?thesis
    by simp
qed

section \<open>The keystroke protocol\<close>

lemma callUpdate_fields [simp]:
  "activeEnemies (callUpdate a g) = activeEnemies g"
  "activeEnemyLimit (callUpdate a g) = activeEnemyLimit g"
  "enemyQueue (callUpdate a g) = enemyQueue g"
  "currentTarget (callUpdate a g) = currentTarget g"
  "nextAddr (callUpdate a g) = nextAddr g"
  "heap (callUpdate a g) = (heap g)(a := updateCompletionPercentage (heap g a))"
  by (simp_all add: callUpdate_def)

lemma clearEnemyWord_heap [simp]: "heap (snd (clearEnemyWord g)) = heap g"
  by (simp add: clearEnemyWord_def Let_def split: option.splits)

lemma handleKeyPress_unmatched:
  "currentTarget g = None \<Longrightarrow> map_of (activeEnemies g) (Str key) = None
     \<Longrightarrow> handleKeyPress key g = (Some TypeError, g)"
  by (simp add: handleKeyPress_def)

lemma handleKeyPress_select:
  "currentTarget g = None \<Longrightarrow>
     currentTarget (snd (handleKeyPress key g)) = map_of (activeEnemies g) (Str key)"
  by (simp add: handleKeyPress_def setCurrentTarget_def split: option.splits)

lemma handleKeyPress_continue:
  assumes "currentTarget g = Some t"
  shows "handleKeyPress key g =
     (if nxt (heap g (enemy t)) = Str (toLowerCase key) then
        (if orNull (charAt (word (heap g (enemy t))) (typed (heap g (enemy t)) + 1)) = Null
         then clearEnemyWord (callUpdate (enemy t) g)
         else (None, callUpdate (enemy t) g))
      else (None, g))"
  using assms by (auto simp: handleKeyPress_def Let_def)

text \<open>
  Claim C10: selection and continuation treat letter case differently. Without a target
  the Map is read with the raw key, so the new target is exactly the entry filed under
  that key, and a key that is no key of the Map leaves the state as it is. With a target
  the key is lowercased before it is compared with \<open>next\<close>: the target is advanced
  exactly when \<open>next\<close> is the lowercased key, and two keys with the same lowercase form
  are handled alike. In particular a key with an uppercase letter selects nothing when
  all keys of the Map are lowercase.
\<close>

theorem key_case_handling:
  "(currentTarget g = None \<longrightarrow>
      currentTarget (snd (handleKeyPress key g)) = map_of (activeEnemies g) (Str key))
   \<and> (currentTarget g = None \<and> Str key \<notin> fst ` set (activeEnemies g) \<longrightarrow>
      snd (handleKeyPress key g) = g)
   \<and> (currentTarget g = None \<and> toLowerCase key \<noteq> key
        \<and> (\<forall>p \<in> set (activeEnemies g). \<forall>k. fst p = Str k \<longrightarrow> toLowerCase k = k) \<longrightarrow>
      snd (handleKeyPress key g) = g)
   \<and> (currentTarget g = Some t \<longrightarrow>
      typed (heap (snd (handleKeyPress key g)) (enemy t)) =
        (if nxt (heap g (enemy t)) = Str (toLowerCase key) then typed (heap g (enemy t)) + 1
         else typed (heap g (enemy t))))
   \<and> (currentTarget g = Some t \<and> toLowerCase key = toLowerCase key' \<longrightarrow>
      handleKeyPress key g = handleKeyPress key' g)"
proof (intro conjI impI)
  assume "currentTarget g = None"
  then show "currentTarget (snd (handleKeyPress key g)) = map_of (activeEnemies g) (Str key)"
    by (rule handleKeyPress_select)
next
  assume a: "currentTarget g = None \<and> Str key \<notin> fst ` set (activeEnemies g)"
  then have "map_of (activeEnemies g) (Str key) = None"
    by (simp add: map_of_eq_None_iff)
  with a show "snd (handleKeyPress key g) = g"
    by (simp add: handleKeyPress_unmatched)
next
  assume a: "currentTarget g = None \<and> toLowerCase key \<noteq> key
        \<and> (\<forall>p \<in> set (activeEnemies g). \<forall>k. fst p = Str k \<longrightarrow> toLowerCase k = k)"
  then have "Str key \<notin> fst ` set (activeEnemies g)"
    by force
  then have "map_of (activeEnemies g) (Str key) = None"
    by (simp add: map_of_eq_None_iff)
  with a show "snd (handleKeyPress key g) = g"
    by (simp add: handleKeyPress_unmatched)
next
  assume t: "currentTarget g = Some t"
  show "typed (heap (snd (handleKeyPress key g)) (enemy t)) =
        (if nxt (heap g (enemy t)) = Str (toLowerCase key) then typed (heap g (enemy t)) + 1
         else typed (heap g (enemy t)))"
    by (simp add: handleKeyPress_continue [OF t])
next
  assume "currentTarget g = Some t \<and> toLowerCase key = toLowerCase key'"
  then show "handleKeyPress key g = handleKeyPress key' g"
    by (simp add: handleKeyPress_continue)
qed


section \<open>The invariant of the Active Enemy Registry\<close>

lemma game_inv_cong:
  assumes "activeEnemies g' = activeEnemies g" "activeEnemyLimit g' = activeEnemyLimit g"
    "heap g' = heap g" "nextAddr g' = nextAddr g" "enemyQueue g' = enemyQueue g"
    "currentTarget g' = currentTarget g"
  shows "game_inv g' = game_inv g"
  unfolding game_inv_def assms ..

lemma game_inv_Game_new: "game_inv Game_new"
  by (simp add: game_inv_def Game_new_def Queue_new_def)

lemma game_inv_clearInterval [simp]: "game_inv (clearInterval h g) = game_inv g"
  by (rule game_inv_cong) simp_all

lemma game_inv_setIntervals [simp]: "game_inv (setIntervals g) = game_inv g"
  by (rule game_inv_cong) simp_all

lemma game_inv_callUpdate:
  assumes "game_inv g" and "a \<notin> set (queue (enemyQueue g))"
  shows "game_inv (callUpdate a g)"
  using assms unfolding game_inv_def
  by (auto split: option.splits)

lemma game_inv_setCurrentTarget:
  assumes "game_inv g" and "(k, wt) \<in> set (activeEnemies g)"
  shows "game_inv (setCurrentTarget wt g)"
  using assms unfolding game_inv_def setCurrentTarget_def
  by (auto split: option.splits)

lemma set_delete_subset: "set (AList.delete k al) \<subseteq> set al"
  by (auto simp: AList.delete_eq)

lemma game_inv_delete:
  assumes "game_inv g"
  shows "game_inv (g\<lparr> activeEnemies := AList.delete k (activeEnemies g) \<rparr>)"
proof -
  have "int (length (AList.delete k (activeEnemies g))) \<le> int (length (activeEnemies g))"
    by (simp add: length_delete_le)
  with assms set_delete_subset [of k "activeEnemies g"] show ?thesis
    unfolding game_inv_def by (auto simp: distinct_delete split: option.splits)
qed

lemma game_inv_untarget:
  "game_inv g \<Longrightarrow> game_inv (g\<lparr> currentTarget := None \<rparr>)"
  unfolding game_inv_def by simp

lemma game_inv_clearEnemyWord: "game_inv g \<Longrightarrow> game_inv (snd (clearEnemyWord g))"
proof (cases "currentTarget g")
  case None
  assume "game_inv g"
  with None show ?thesis by (simp add: clearEnemyWord_def)
next
  case (Some t)
  assume inv: "game_inv g"
  let ?k = "charAt (word (heap g (enemy t))) 0"
  let ?g2 = "g\<lparr> activeEnemies := AList.delete ?k (activeEnemies g) \<rparr>"
  from inv have "game_inv (?g2\<lparr> currentTarget := None \<rparr>)"
    by (intro game_inv_untarget game_inv_delete)
  also have "game_inv (?g2\<lparr> currentTarget := None \<rparr>) = game_inv (snd (clearEnemyWord g))"
    by (rule game_inv_cong [symmetric]) (simp_all add: clearEnemyWord_def Let_def Some)
  finally show ?thesis .
qed


lemma game_inv_handleKeyPress:
  assumes inv: "game_inv g"
  shows "game_inv (snd (handleKeyPress key g))"
proof (cases "currentTarget g")
  case (Some t)
  from inv Some have nq: "enemy t \<notin> set (queue (enemyQueue g))"
    by (simp add: game_inv_def)
  from inv nq have "game_inv (callUpdate (enemy t) g)"
    by (rule game_inv_callUpdate)
  then show ?thesis
    by (simp add: handleKeyPress_continue [OF Some] inv game_inv_clearEnemyWord)
next
  case None
  show ?thesis
  proof (cases "map_of (activeEnemies g) (Str key)")
    case N: None
    with None inv show ?thesis by (simp add: handleKeyPress_unmatched)
  next
    case (Some wt)
    then have mem: "(Str key, wt) \<in> set (activeEnemies g)"
      by (rule map_of_SomeD)
    with inv have nq: "enemy wt \<notin> set (queue (enemyQueue g))"
      by (auto simp: game_inv_def)
    from inv mem have "game_inv (setCurrentTarget wt g)"
      by (rule game_inv_setCurrentTarget)
    moreover from nq have "enemy wt \<notin> set (queue (enemyQueue (setCurrentTarget wt g)))"
      by (simp add: setCurrentTarget_def)
    ultimately have "game_inv (callUpdate (enemy wt) (setCurrentTarget wt g))"
      by (rule game_inv_callUpdate)
    moreover from None Some
    have "snd (handleKeyPress key g) = callUpdate (enemy wt) (setCurrentTarget wt g)"
      by (simp add: handleKeyPress_def setCurrentTarget_def split: option.splits)
    ultimately show ?thesis by simp
  qed
qed

lemma update_fresh: "k \<notin> fst ` set al \<Longrightarrow> AList.update k v al = al @ [(k, v)]"
  by (induction al) auto

lemma game_inv_addEnemyWord:
  assumes inv: "game_inv g"
    and a: "a < nextAddr g" "a \<notin> set (queue (enemyQueue g))"
      "nxt (heap g a) = charAt (word (heap g a)) 0"
  shows "game_inv (snd (addEnemyWord (Some a) g))"
proof (cases "map_of (activeEnemies g) (nxt (heap g a)) \<noteq> None
              \<or> int (length (activeEnemies g)) \<ge> activeEnemyLimit g")
  case True
  with inv show ?thesis by (auto simp: addEnemyWord_def)
next
  case False
  then have fresh: "nxt (heap g a) \<notin> fst ` set (activeEnemies g)"
    and room: "int (length (activeEnemies g)) < activeEnemyLimit g"
    by (simp_all add: map_of_eq_None_iff)
  let ?en = "\<lparr> enemy = a, node = nextNode g, detector = nextTimer g \<rparr>"
  let ?g' = "g\<lparr> activeEnemies := activeEnemies g @ [(nxt (heap g a), ?en)] \<rparr>"
  from inv a fresh room have "game_inv ?g'"
    unfolding game_inv_def by (auto split: option.splits)
  also have "game_inv ?g' = game_inv (snd (addEnemyWord (Some a) g))"
    using False fresh
    by (intro game_inv_cong [symmetric])
       (simp_all add: addEnemyWord_def setInterval_def Let_def update_fresh)
  finally show ?thesis .
qed

lemma game_inv_spawnTick:
  assumes inv: "game_inv g"
  shows "game_inv (snd (spawnTick g))"
proof (cases "queue (enemyQueue g)")
  case Nil
  then have "snd (spawnTick g)
      = g\<lparr> enemyQueue := (enemyQueue g)\<lparr> size_q := size_q (enemyQueue g) - 1 \<rparr> \<rparr>"
    by (simp add: spawnTick_def dequeue_def addEnemyWord_def Let_def)
  with inv Nil show ?thesis
    by (auto simp: game_inv_def split: option.splits)
next
  case (Cons a as)
  let ?g1 = "g\<lparr> enemyQueue := (enemyQueue g)\<lparr> size_q := size_q (enemyQueue g) - 1, queue := as \<rparr> \<rparr>"
  from Cons have st: "spawnTick g = addEnemyWord (Some a) ?g1"
    by (simp add: spawnTick_def dequeue_def Let_def)
  from inv Cons have "game_inv ?g1"
    unfolding game_inv_def by (auto split: option.splits)
  moreover from inv Cons have "a < nextAddr ?g1" "a \<notin> set (queue (enemyQueue ?g1))"
    "nxt (heap ?g1 a) = charAt (word (heap ?g1 a)) 0"
    by (simp_all add: game_inv_def)
  ultimately show ?thesis
    unfolding st by (rule game_inv_addEnemyWord)
qed

lemma Enemy_new_nxt [simp]: "nxt (Enemy_new w) = charAt w 0"
  by (simp add: Enemy_new_def)

lemma game_inv_loadIntoQueue:
  assumes inv: "game_inv g"
  shows "game_inv (snd (loadIntoQueue ws rnd g))"
proof -
  obtain err g' where L: "loadIntoQueue ws rnd g = (err, g')"
    by (cases "loadIntoQueue ws rnd g")
  note R = loadIntoQueue_result [OF L]
  from R obtain H N Q where g': "g' = g\<lparr> heap := H, nextAddr := N, enemyQueue := Q \<rparr>"
    by blast
  have f: "activeEnemies g' = activeEnemies g" "activeEnemyLimit g' = activeEnemyLimit g"
    "currentTarget g' = currentTarget g"
    by (simp_all add: g')
  from R have le: "nextAddr g \<le> nextAddr g'"
    and old: "\<And>a. a < nextAddr g \<Longrightarrow> heap g' a = heap g a"
    and new: "\<And>a. nextAddr g \<le> a \<Longrightarrow> a < nextAddr g' \<Longrightarrow> \<exists>w. heap g' a = Enemy_new w"
    by blast+
  from R have q: "queue (enemyQueue g') = queue (enemyQueue g)
      \<or> queue (enemyQueue g') = queue (enemyQueue g) @ [nextAddr g ..< nextAddr g']"
    by (cases err) auto
  have fresh: "nxt (heap g' a) = charAt (word (heap g' a)) 0"
    if "nextAddr g \<le> a" "a < nextAddr g'" for a
    using new [OF that] by auto
  from inv have i1: "distinct (map fst (activeEnemies g))"
    and i2: "int (length (activeEnemies g)) \<le> activeEnemyLimit g"
    and i3: "\<And>p. p \<in> set (activeEnemies g) \<Longrightarrow>
         fst p = charAt (word (heap g (enemy (snd p)))) 0 \<and>
         enemy (snd p) < nextAddr g \<and>
         enemy (snd p) \<notin> set (queue (enemyQueue g))"
    and i4: "\<And>a. a \<in> set (queue (enemyQueue g)) \<Longrightarrow>
         a < nextAddr g \<and> nxt (heap g a) = charAt (word (heap g a)) 0"
    and i5: "distinct (queue (enemyQueue g))"
    and i6: "\<And>t. currentTarget g = Some t \<Longrightarrow>
         enemy t < nextAddr g \<and> enemy t \<notin> set (queue (enemyQueue g))"
    unfolding game_inv_def by (auto split: option.splits)
  have qset: "set (queue (enemyQueue g')) \<subseteq> set (queue (enemyQueue g)) \<union> {nextAddr g ..< nextAddr g'}"
    using q by auto
  have j3: "fst p = charAt (word (heap g' (enemy (snd p)))) 0 \<and>
         enemy (snd p) < nextAddr g' \<and>
         enemy (snd p) \<notin> set (queue (enemyQueue g'))"
    if "p \<in> set (activeEnemies g')" for p
  proof -
    from that have "p \<in> set (activeEnemies g)" by (simp add: f)
    from i3 [OF this] le old qset show ?thesis by auto
  qed
  have j4: "a < nextAddr g' \<and> nxt (heap g' a) = charAt (word (heap g' a)) 0"
    if "a \<in> set (queue (enemyQueue g'))" for a
  proof (cases "a \<in> set (queue (enemyQueue g))")
    case True
    from i4 [OF True] le old show ?thesis by auto
  next
    case False
    with that qset have "nextAddr g \<le> a" "a < nextAddr g'" by auto
    with fresh show ?thesis by simp
  qed
  have below: "a < nextAddr g" if "a \<in> set (queue (enemyQueue g))" for a
    using i4 [OF that] by simp
  have j5: "distinct (queue (enemyQueue g'))"
    using q i5 below by (auto simp: distinct_append) force
  have j6: "enemy t < nextAddr g' \<and> enemy t \<notin> set (queue (enemyQueue g'))"
    if "currentTarget g' = Some t" for t
  proof -
    from that have "currentTarget g = Some t" by (simp add: f)
    from i6 [OF this] le qset show ?thesis by auto
  qed
  have "game_inv g'"
    unfolding game_inv_def
    using i1 i2 j3 j4 j5 j6 by (auto simp: f split: option.splits)
  with L show ?thesis by simp
qed


lemma increaseDifficulty_fields [simp]:
  "activeEnemies (snd (increaseDifficulty g)) = activeEnemies g"
  "heap (snd (increaseDifficulty g)) = heap g"
  "nextAddr (snd (increaseDifficulty g)) = nextAddr g"
  "enemyQueue (snd (increaseDifficulty g)) = enemyQueue g"
  "currentTarget (snd (increaseDifficulty g)) = currentTarget g"
  by (simp_all add: increaseDifficulty_def updateDisplay_message_def Let_def
      split: jsval.splits)

lemma increaseDifficulty_limit:
  "activeEnemyLimit g \<le> activeEnemyLimit (snd (increaseDifficulty g))"
  by (simp add: increaseDifficulty_def updateDisplay_message_def Let_def
      split: jsval.splits)

lemma game_inv_raise_limit:
  assumes "game_inv g" and "activeEnemies g' = activeEnemies g"
    "activeEnemyLimit g \<le> activeEnemyLimit g'"
    "heap g' = heap g" "nextAddr g' = nextAddr g" "enemyQueue g' = enemyQueue g"
    "currentTarget g' = currentTarget g"
  shows "game_inv g'"
  using assms unfolding game_inv_def by (auto split: option.splits)

lemma game_inv_increaseDifficulty:
  "game_inv g \<Longrightarrow> game_inv (snd (increaseDifficulty g))"
  by (erule game_inv_raise_limit) (simp_all add: increaseDifficulty_limit)

lemma fold_clearInterval_fields [simp]:
  "enemyQueue (fold (\<lambda>kv. clearInterval (Some (detector (snd kv)))) xs g) = enemyQueue g"
  "heap (fold (\<lambda>kv. clearInterval (Some (detector (snd kv)))) xs g) = heap g"
  "nextAddr (fold (\<lambda>kv. clearInterval (Some (detector (snd kv)))) xs g) = nextAddr g"
  "lives (fold (\<lambda>kv. clearInterval (Some (detector (snd kv)))) xs g) = lives g"
  "score (fold (\<lambda>kv. clearInterval (Some (detector (snd kv)))) xs g) = score g"
  "spawnInterval (fold (\<lambda>kv. clearInterval (Some (detector (snd kv)))) xs g) = spawnInterval g"
  "enqueueInterval (fold (\<lambda>kv. clearInterval (Some (detector (snd kv)))) xs g) = enqueueInterval g"
  "difficultyInterval (fold (\<lambda>kv. clearInterval (Some (detector (snd kv)))) xs g)
     = difficultyInterval g"
  by (induction xs arbitrary: g) simp_all

lemma resetDefaults_fields [simp]:
  "activeEnemies (resetDefaults g) = []"
  "activeEnemyLimit (resetDefaults g) = 10"
  "queueLimit (resetDefaults g) = 30"
  "currentTarget (resetDefaults g) = None"
  "enemyQueue (resetDefaults g) = clear (enemyQueue g)"
  "heap (resetDefaults g) = heap g"
  "nextAddr (resetDefaults g) = nextAddr g"
  "lives (resetDefaults g) = lives g"
  "score (resetDefaults g) = score g"
  "difficultyLevel (resetDefaults g) = 0"
  "enemySpawnDelay (resetDefaults g) = 2500"
  "loadQueueDelay (resetDefaults g) = 10000"
  "nextModifier (resetDefaults g) = Str ''interval''"
  by (simp_all add: resetDefaults_def Let_def)

lemma game_inv_resetDefaults: "game_inv (resetDefaults g)"
  by (simp add: game_inv_def clear_def)

lemma endGame_fields [simp]:
  "activeEnemies (endGame g) = []"
  "activeEnemyLimit (endGame g) = 10"
  "queueLimit (endGame g) = 30"
  "currentTarget (endGame g) = None"
  "enemyQueue (endGame g) = clear (enemyQueue g)"
  "heap (endGame g) = heap g"
  "nextAddr (endGame g) = nextAddr g"
  "lives (endGame g) = lives g"
  by (simp_all add: endGame_def Let_def)

lemma game_inv_endGame: "game_inv (endGame g)"
  by (simp add: game_inv_def clear_def)

lemma game_inv_collisionHandler:
  assumes inv: "game_inv g"
  shows "game_inv (snd (collisionHandler w g))"
proof -
  let ?g1 = "g\<lparr> lives := map_option (\<lambda>l. l - 1) (lives g), streak := 0 \<rparr>"
  let ?k = "charAt w 0"
  have "game_inv ?g1 = game_inv g"
    by (rule game_inv_cong) simp_all
  with inv have g1: "game_inv ?g1" by simp
  show ?thesis
  proof (cases "map_of (activeEnemies g) ?k")
    case None
    then have "snd (collisionHandler w g) = ?g1\<lparr> activeEnemies := AList.delete ?k (activeEnemies ?g1) \<rparr>"
      by (simp add: collisionHandler_def Let_def)
    with game_inv_delete [OF g1, of ?k] show ?thesis by simp
  next
    case (Some en)
    let ?g2 = "if currentTarget ?g1 = Some en then ?g1\<lparr> currentTarget := None \<rparr> else ?g1"
    let ?g3 = "?g2\<lparr> activeEnemies := AList.delete ?k (activeEnemies ?g2) \<rparr>"
    let ?g5 = "(clearInterval (Some (detector en)) ?g3)\<lparr> missedWords :=
                 missedWords (clearInterval (Some (detector en)) ?g3) @ [w] \<rparr>"
    from g1 have "game_inv ?g2"
      by (simp add: game_inv_untarget)
    then have "game_inv ?g3"
      by (rule game_inv_delete)
    moreover have "game_inv ?g5 = game_inv ?g3"
      by (rule game_inv_cong) simp_all
    ultimately have g5: "game_inv ?g5" by simp
    from Some have "snd (collisionHandler w g) = ?g5 \<or> snd (collisionHandler w g) = endGame ?g5"
      by (simp add: collisionHandler_def Let_def)
    with g5 game_inv_endGame show ?thesis
      by (elim disjE) simp_all
  qed
qed

lemma game_inv_initGame:
  assumes inv: "game_inv g"
  shows "game_inv (snd (initGame ws rnd mode g))"
proof -
  let ?g2 = "g\<lparr> score := 0, gameMode := toLowerCase mode,
                lives := Some (if toLowerCase mode = ''normal'' then 4 else 1) \<rparr>"
  have "game_inv ?g2 = game_inv g"
    by (rule game_inv_cong) simp_all
  with inv have "game_inv ?g2" by simp
  then have L: "game_inv (snd (loadIntoQueue ws rnd ?g2))"
    by (rule game_inv_loadIntoQueue)
  have "snd (initGame ws rnd mode g) = snd (loadIntoQueue ws rnd ?g2)
      \<or> snd (initGame ws rnd mode g) = setIntervals (snd (loadIntoQueue ws rnd ?g2))"
    by (cases "loadIntoQueue ws rnd ?g2"; cases "fst (loadIntoQueue ws rnd ?g2)")
       (simp_all add: initGame_def Let_def)
  with L show ?thesis
    by (elim disjE) simp_all
qed

lemma game_inv_fire: "game_inv g \<Longrightarrow> game_inv (snd (fire ws ev g))"
  by (cases ev)
     (simp_all add: game_inv_initGame game_inv_handleKeyPress game_inv_spawnTick
        game_inv_loadIntoQueue game_inv_increaseDifficulty game_inv_collisionHandler
        game_inv_clearEnemyWord game_inv_endGame game_inv_resetDefaults)

lemma game_inv_run: "game_inv g \<Longrightarrow> game_inv (run ws evs g)"
  by (induction evs arbitrary: g) (simp_all add: game_inv_fire)

text \<open>
  Claim C7: in every state that the controller's operations reach from the constructor
  state, no two entries of the registry have the same key, every key is the first
  character of its entry's word, and the registry has at most \<open>activeEnemyLimit\<close>
  entries.
\<close>

theorem registry_invariant:
  "distinct (map fst (activeEnemies (run ws evs Game_new)))
   \<and> map fst (activeEnemies (run ws evs Game_new))
       = map (\<lambda>p. charAt (word (heap (run ws evs Game_new) (enemy (snd p)))) 0)
           (activeEnemies (run ws evs Game_new))
   \<and> int (length (activeEnemies (run ws evs Game_new)))
       \<le> activeEnemyLimit (run ws evs Game_new)"
proof -
  have "game_inv (run ws evs Game_new)"
    by (rule game_inv_run) (rule game_inv_Game_new)
  then show ?thesis
    unfolding game_inv_def by simp
qed

section \<open>The two sessions\<close>

lemma setIntervals_counters [simp]:
  "nextNode (setIntervals g) = nextNode g"
  "nextTimer (setIntervals g) = nextTimer g + 3"
  by (simp_all add: setIntervals_def setInterval_def clearInterval_def Let_def split: option.splits)

lemma loadLoop_ok:
  "\<forall>i. wordAt ws (randomIndex (rnd i) (length ws)) \<noteq> None \<Longrightarrow>
     fst (loadLoop ws rnd needed i acc g) = None"
proof (induction ws rnd needed i acc g rule: loadLoop.induct)
  case (1 ws rnd needed i newEnemies g)
  show ?case
  proof (cases "int i < needed")
    case False
    then show ?thesis by (simp add: loadLoop.simps)
  next
    case True
    from "1.prems" obtain w where w: "wordAt ws (randomIndex (rnd i) (length ws)) = Some w"
      by blast
    from "1.IH" [OF True w "1.prems"] True w show ?thesis
      by (subst loadLoop.simps) simp
  qed
qed

text \<open>Refilling from the one-word dictionary "cat".\<close>

lemma loadIntoQueue_cat:
  fixes g :: Game and rnd :: "nat \<Rightarrow> real"
  defines "g' \<equiv> snd (loadIntoQueue [''cat''] rnd g)"
  defines "n \<equiv> nat (queueLimit g - size_q (enemyQueue g))"
  shows "fst (loadIntoQueue [''cat''] rnd g) = None"
    and "\<exists>H N Q. g' = g\<lparr> heap := H, nextAddr := N, enemyQueue := Q \<rparr>"
    and "nextAddr g' = nextAddr g + n"
    and "queue (enemyQueue g') = queue (enemyQueue g) @ [nextAddr g ..< nextAddr g + n]"
    and "size_q (enemyQueue g') = size_q (enemyQueue g) + int n"
    and "\<And>a. a < nextAddr g \<Longrightarrow> heap g' a = heap g a"
    and "\<And>a. nextAddr g \<le> a \<Longrightarrow> a < nextAddr g + n \<Longrightarrow> heap g' a = Enemy_new ''cat''"
proof -
  have ok: "fst (loadLoop [''cat''] rnd (queueLimit g - size_q (enemyQueue g)) 0 [] g) = None"
    by (rule loadLoop_ok) (simp add: wordAt_def randomIndex_def)
  show err: "fst (loadIntoQueue [''cat''] rnd g) = None"
    using ok
    by (cases "loadLoop [''cat''] rnd (queueLimit g - size_q (enemyQueue g)) 0 [] g")
       (simp add: loadIntoQueue_def)
  then have L: "loadIntoQueue [''cat''] rnd g = (None, g')"
    unfolding g'_def by (cases "loadIntoQueue [''cat''] rnd g") simp
  note R = loadIntoQueue_result [OF L]
  from R show "\<exists>H N Q. g' = g\<lparr> heap := H, nextAddr := N, enemyQueue := Q \<rparr>"
    by blast
  from R show na: "nextAddr g' = nextAddr g + n"
    unfolding n_def by blast
  from R have "queue (enemyQueue g') = queue (enemyQueue g) @ [nextAddr g ..< nextAddr g']"
    by blast
  then show "queue (enemyQueue g') = queue (enemyQueue g) @ [nextAddr g ..< nextAddr g + n]"
    by (simp only: na)
  from R have "size_q (enemyQueue g') = size_q (enemyQueue g) + int (nextAddr g' - nextAddr g)"
    by blast
  then show "size_q (enemyQueue g') = size_q (enemyQueue g) + int n"
    by (simp add: na)
  from R show "\<And>a. a < nextAddr g \<Longrightarrow> heap g' a = heap g a"
    by blast
  fix a assume "nextAddr g \<le> a" "a < nextAddr g + n"
  with R na have "\<exists>w \<in> set [''cat'']. heap g' a = Enemy_new w"
    by simp
  then show "heap g' a = Enemy_new ''cat''"
    by simp
qed

lemma loadIntoQueue_fields [simp]:
  "activeEnemies (snd (loadIntoQueue ws rnd g)) = activeEnemies g"
  "activeEnemyLimit (snd (loadIntoQueue ws rnd g)) = activeEnemyLimit g"
  "queueLimit (snd (loadIntoQueue ws rnd g)) = queueLimit g"
  "currentTarget (snd (loadIntoQueue ws rnd g)) = currentTarget g"
  "lives (snd (loadIntoQueue ws rnd g)) = lives g"
  "nextNode (snd (loadIntoQueue ws rnd g)) = nextNode g"
  "nextTimer (snd (loadIntoQueue ws rnd g)) = nextTimer g"
proof -
  have "loadIntoQueue ws rnd g = (fst (loadIntoQueue ws rnd g), snd (loadIntoQueue ws rnd g))"
    by simp
  from loadIntoQueue_result [OF this]
  obtain H N Q where "snd (loadIntoQueue ws rnd g) = g\<lparr> heap := H, nextAddr := N, enemyQueue := Q \<rparr>"
    by blast
  then show "activeEnemies (snd (loadIntoQueue ws rnd g)) = activeEnemies g"
    "activeEnemyLimit (snd (loadIntoQueue ws rnd g)) = activeEnemyLimit g"
    "queueLimit (snd (loadIntoQueue ws rnd g)) = queueLimit g"
    "currentTarget (snd (loadIntoQueue ws rnd g)) = currentTarget g"
    "lives (snd (loadIntoQueue ws rnd g)) = lives g"
    "nextNode (snd (loadIntoQueue ws rnd g)) = nextNode g"
    "nextTimer (snd (loadIntoQueue ws rnd g)) = nextTimer g"
    by simp_all
qed

lemma initGame_unfold:
  "initGame ws rnd mode g =
     (let r = loadIntoQueue ws rnd
                (g\<lparr> score := 0, gameMode := toLowerCase mode,
                    lives := Some (if toLowerCase mode = ''normal'' then 4 else 1) \<rparr>)
      in case fst r of Some err \<Rightarrow> (Some err, snd r) | None \<Rightarrow> (None, setIntervals (snd r)))"
  by (simp add: initGame_def Let_def split: prod.splits option.splits)

text \<open>Starting a game with the one-word dictionary "cat".\<close>

lemma initGame_cat:
  fixes g :: Game and rnd :: "nat \<Rightarrow> real" and mode :: string
  defines "g' \<equiv> snd (initGame [''cat''] rnd mode g)"
  defines "n \<equiv> nat (queueLimit g - size_q (enemyQueue g))"
  shows "fst (initGame [''cat''] rnd mode g) = None"
    and "activeEnemies g' = activeEnemies g"
    and "activeEnemyLimit g' = activeEnemyLimit g"
    and "currentTarget g' = currentTarget g"
    and "lives g' = Some (if toLowerCase mode = ''normal'' then 4 else 1)"
    and "nextNode g' = nextNode g"
    and "nextTimer g' = nextTimer g + 3"
    and "queueLimit g' = queueLimit g"
    and "nextAddr g' = nextAddr g + n"
    and "queue (enemyQueue g') = queue (enemyQueue g) @ [nextAddr g ..< nextAddr g + n]"
    and "size_q (enemyQueue g') = size_q (enemyQueue g) + int n"
    and "\<And>a. a < nextAddr g \<Longrightarrow> heap g' a = heap g a"
    and "\<And>a. nextAddr g \<le> a \<Longrightarrow> a < nextAddr g + n \<Longrightarrow> heap g' a = Enemy_new ''cat''"
proof -
  let ?g2 = "g\<lparr> score := 0, gameMode := toLowerCase mode,
                lives := Some (if toLowerCase mode = ''normal'' then 4 else 1) \<rparr>"
  note C = loadIntoQueue_cat [where g = ?g2 and rnd = rnd]
  have init: "initGame [''cat''] rnd mode g = (None, setIntervals (snd (loadIntoQueue [''cat''] rnd ?g2)))"
    unfolding initGame_unfold Let_def C(1) by (simp only: option.case)
  then have g': "g' = setIntervals (snd (loadIntoQueue [''cat''] rnd ?g2))"
    by (simp add: g'_def)
  from init show "fst (initGame [''cat''] rnd mode g) = None" by simp
  show "activeEnemies g' = activeEnemies g"
    and "activeEnemyLimit g' = activeEnemyLimit g"
    and "currentTarget g' = currentTarget g"
    and "lives g' = Some (if toLowerCase mode = ''normal'' then 4 else 1)"
    and "nextNode g' = nextNode g"
    and "nextTimer g' = nextTimer g + 3"
    and "queueLimit g' = queueLimit g"
    unfolding g' by simp_all
  from C(3) show "nextAddr g' = nextAddr g + n"
    unfolding g' n_def by simp
  from C(4) show "queue (enemyQueue g') = queue (enemyQueue g) @ [nextAddr g ..< nextAddr g + n]"
    unfolding g' n_def by simp
  from C(5) show "size_q (enemyQueue g') = size_q (enemyQueue g) + int n"
    unfolding g' n_def by simp
  from C(6) show "\<And>a. a < nextAddr g \<Longrightarrow> heap g' a = heap g a"
    unfolding g' by simp
  from C(7) show "\<And>a. nextAddr g \<le> a \<Longrightarrow> a < nextAddr g + n \<Longrightarrow> heap g' a = Enemy_new ''cat''"
    unfolding g' n_def by simp
qed


text \<open>
  A game started with the one-word dictionary queues thirty instances of "cat"; none is
  dropped as a duplicate.
\<close>

lemma started_queue_all_cat:
  "map (\<lambda>a. word (heap (snd (initGame [''cat''] rnd mode Game_new)) a))
       (queue (enemyQueue (snd (initGame [''cat''] rnd mode Game_new))))
     = replicate 30 ''cat''"
proof -
  note I = initGame_cat [where g = Game_new and rnd = rnd and mode = mode]
  from I(10) have q: "queue (enemyQueue (snd (initGame [''cat''] rnd mode Game_new))) = [0 ..< 30]"
    by (simp add: Game_new_def Queue_new_def)
  have h: "heap (snd (initGame [''cat''] rnd mode Game_new)) a = Enemy_new ''cat''"
    if "a < 30" for a
    using I(13) [of a] that by (simp add: Game_new_def Queue_new_def)
  show ?thesis
    unfolding q by (simp add: list_eq_iff_nth_eq h)
qed

lemma spawnTick_empty:
  "queue (enemyQueue g) = [] \<Longrightarrow>
     spawnTick g =
       (Some TypeError,
        g\<lparr> enemyQueue := (enemyQueue g)\<lparr> size_q := size_q (enemyQueue g) - 1 \<rparr> \<rparr>)"
  by (simp add: spawnTick_def dequeue_def addEnemyWord_def Let_def)

lemma spawnTick_success:
  assumes "queue (enemyQueue g) = a # as"
    and "map_of (activeEnemies g) (nxt (heap g a)) = None"
    and "int (length (activeEnemies g)) < activeEnemyLimit g"
  shows "fst (spawnTick g) = None"
    and "activeEnemies (snd (spawnTick g)) =
           activeEnemies g @
             [(nxt (heap g a), \<lparr> enemy = a, node = nextNode g, detector = nextTimer g \<rparr>)]"
    and "queue (enemyQueue (snd (spawnTick g))) = as"
    and "size_q (enemyQueue (snd (spawnTick g))) = size_q (enemyQueue g) - 1"
    and "currentTarget (snd (spawnTick g)) = currentTarget g"
    and "heap (snd (spawnTick g)) = heap g"
    and "nextAddr (snd (spawnTick g)) = nextAddr g"
    and "lives (snd (spawnTick g)) = lives g"
    and "queueLimit (snd (spawnTick g)) = queueLimit g"
    and "activeEnemyLimit (snd (spawnTick g)) = activeEnemyLimit g"
proof -
  from assms(2) have "nxt (heap g a) \<notin> fst ` set (activeEnemies g)"
    by (simp add: map_of_eq_None_iff)
  with assms show "fst (spawnTick g) = None"
    and "activeEnemies (snd (spawnTick g)) =
           activeEnemies g @
             [(nxt (heap g a), \<lparr> enemy = a, node = nextNode g, detector = nextTimer g \<rparr>)]"
    and "queue (enemyQueue (snd (spawnTick g))) = as"
    and "size_q (enemyQueue (snd (spawnTick g))) = size_q (enemyQueue g) - 1"
    and "currentTarget (snd (spawnTick g)) = currentTarget g"
    and "heap (snd (spawnTick g)) = heap g"
    and "nextAddr (snd (spawnTick g)) = nextAddr g"
    and "lives (snd (spawnTick g)) = lives g"
    and "queueLimit (snd (spawnTick g)) = queueLimit g"
    and "activeEnemyLimit (snd (spawnTick g)) = activeEnemyLimit g"
    by (simp_all add: spawnTick_def dequeue_def addEnemyWord_def setInterval_def Let_def
          update_fresh)
qed

lemma collision_last_life:
  assumes "lives g = Some 1" and "map_of (activeEnemies g) (charAt w 0) = Some en"
  shows "fst (collisionHandler w g) = None"
    and "activeEnemies (snd (collisionHandler w g)) = []"
    and "currentTarget (snd (collisionHandler w g)) = None"
    and "enemyQueue (snd (collisionHandler w g)) = clear (enemyQueue g)"
    and "queueLimit (snd (collisionHandler w g)) = 30"
    and "activeEnemyLimit (snd (collisionHandler w g)) = 10"
    and "heap (snd (collisionHandler w g)) = heap g"
    and "nextAddr (snd (collisionHandler w g)) = nextAddr g"
  using assms by (simp_all add: collisionHandler_def Let_def)

lemma Game_new_fields [simp]:
  "activeEnemies Game_new = []" "currentTarget Game_new = None"
  "activeEnemyLimit Game_new = 10" "queueLimit Game_new = 30"
  "queue (enemyQueue Game_new) = []" "size_q (enemyQueue Game_new) = 0"
  "nextAddr Game_new = 0" "nextNode Game_new = 0" "nextTimer Game_new = 1"
  by (simp_all add: Game_new_def Queue_new_def)

lemma session_spawned_facts:
  shows "activeEnemies session_spawned = [(Str ''c'', \<lparr> enemy = 0, node = 0, detector = 4 \<rparr>)]"
    and "currentTarget session_spawned = None"
    and "heap session_spawned 0 = Enemy_new ''cat''"
proof -
  define g1 where "g1 = snd (initGame [''cat''] (\<lambda>_. 0) ''Normal'' Game_new)"
  note I = initGame_cat [where g = Game_new and rnd = "\<lambda>_. 0" and mode = "''Normal''",
      folded g1_def]
  have s: "session_spawned = snd (spawnTick g1)"
    by (simp add: session_spawned_def g1_def)
  from I(10) have q: "queue (enemyQueue g1) = 0 # [1 ..< 30]"
    by (simp add: upt_conv_Cons)
  from I(13) [of 0] have h: "heap g1 0 = Enemy_new ''cat''"
    by simp
  have m: "map_of (activeEnemies g1) (nxt (heap g1 0)) = None"
    by (simp add: I(2))
  have l: "int (length (activeEnemies g1)) < activeEnemyLimit g1"
    by (simp add: I(2) I(3))
  note S = spawnTick_success [OF q m l]
  from S(2) show "activeEnemies session_spawned = [(Str ''c'', \<lparr> enemy = 0, node = 0, detector = 4 \<rparr>)]"
    by (simp add: s I(2) I(6) I(7) h charAt_def)
  from S(5) show "currentTarget session_spawned = None"
    by (simp add: s I(4))
  from S(6) show "heap session_spawned 0 = Enemy_new ''cat''"
    by (simp add: s h)
qed

lemma session_retried_facts:
  shows "queue (enemyQueue session_retried) = []"
    and "size_q (enemyQueue session_retried) = 29"
proof -
  define g1 where "g1 = snd (initGame [''cat''] (\<lambda>_. 0) ''Sudden Death'' Game_new)"
  define g2 where "g2 = snd (spawnTick g1)"
  define g3 where "g3 = snd (collisionHandler ''cat'' g2)"
  define g4 where "g4 = snd (initGame [''cat''] (\<lambda>_. 0) ''sudden death'' g3)"
  have s: "session_retried = snd (spawnTick g4)"
    by (simp add: session_retried_def g1_def g2_def g3_def g4_def)
  note I1 = initGame_cat [where g = Game_new and rnd = "\<lambda>_. 0" and mode = "''Sudden Death''",
      folded g1_def]
  from I1(10) have q1: "queue (enemyQueue g1) = 0 # [1 ..< 30]"
    by (simp add: upt_conv_Cons)
  from I1(11) have z1: "size_q (enemyQueue g1) = 30"
    by simp
  from I1(5) have l1: "lives g1 = Some 1"
    by (simp add: toLowerCase_def lowerChar_def)
  from I1(13) [of 0] have h1: "heap g1 0 = Enemy_new ''cat''"
    by simp
  have m1: "map_of (activeEnemies g1) (nxt (heap g1 0)) = None"
    by (simp add: I1(2))
  have r1: "int (length (activeEnemies g1)) < activeEnemyLimit g1"
    by (simp add: I1(2) I1(3))
  note S2 = spawnTick_success [OF q1 m1 r1, folded g2_def]
  from S2(8) l1 have l2: "lives g2 = Some 1"
    by simp
  from S2(2) have m2: "map_of (activeEnemies g2) (charAt ''cat'' 0)
      = Some \<lparr> enemy = 0, node = nextNode g1, detector = nextTimer g1 \<rparr>"
    by (simp add: I1(2) h1 charAt_def)
  note C3 = collision_last_life [OF l2 m2, folded g3_def]
  from C3(4) S2(3) S2(4) z1 have q3: "queue (enemyQueue g3) = []" "size_q (enemyQueue g3) = 29"
    by (simp_all add: clear_def)
  from C3(8) S2(7) I1(9) have a3: "nextAddr g3 = 30"
    by simp
  note I4 = initGame_cat [where g = g3 and rnd = "\<lambda>_. 0" and mode = "''sudden death''",
      folded g4_def]
  from I4(10) q3 C3(5) a3 have q4: "queue (enemyQueue g4) = 30 # []"
    by simp
  from I4(11) q3 C3(5) have z4: "size_q (enemyQueue g4) = 30"
    by simp
  have m4: "map_of (activeEnemies g4) (nxt (heap g4 30)) = None"
    by (simp add: I4(2) C3(2))
  have r4: "int (length (activeEnemies g4)) < activeEnemyLimit g4"
    by (simp add: I4(2) I4(3) C3(2) C3(6))
  note S5 = spawnTick_success [OF q4 m4 r4]
  from S5(3) show "queue (enemyQueue session_retried) = []"
    by (simp add: s)
  from S5(4) z4 show "size_q (enemyQueue session_retried) = 29"
    by (simp add: s)
qed

text \<open>
  Claim C1 says that a key that matches no active word, pressed while no word is
  targeted, has no effect and raises no error. With "cat" on screen and untargeted, the
  key "x" leaves the state as it is but the handler throws a TypeError: its last
  statement reads \<open>this.currentTarget.enemy\<close> while \<open>currentTarget\<close> is \<open>null\<close>.
  Lemma \<open>handleKeyPress_unmatched\<close> shows the same for every such state and key.
\<close>

theorem unmatched_key_throws:
  "handleKeyPress ''x'' session_spawned = (Some TypeError, session_spawned)"
  by (rule handleKeyPress_unmatched) (simp_all add: session_spawned_facts)

text \<open>
  Claim C2 says that a spawn tick on an empty queue changes no state, the size counter
  in particular. After the retry the queue holds one word and its counter says 30
  (\<open>clear\<close> does not reset it); the first spawn tick empties the queue and the second
  one finds it empty: \<open>dequeue\<close> lowers the counter from 29 to 28 and
  \<open>_addEnemyWord(undefined)\<close> throws a TypeError. Lemma \<open>spawnTick_empty\<close> shows the
  same for every state with an empty queue.
\<close>

theorem spawn_on_empty_queue_changes_size:
  "queue (enemyQueue session_retried) = []
   \<and> size_q (enemyQueue session_retried) = 29
   \<and> spawnTick session_retried =
       (Some TypeError,
        session_retried\<lparr> enemyQueue := (enemyQueue session_retried)\<lparr> size_q := 28 \<rparr> \<rparr>)"
  using spawnTick_empty [OF session_retried_facts(1)]
  by (simp add: session_retried_facts)

theorem key_case_handling_witness:
  "currentTarget session_spawned = None
   \<and> Str ''C'' \<notin> fst ` set (activeEnemies session_spawned)
   \<and> toLowerCase ''C'' \<noteq> ''C''
   \<and> map fst (activeEnemies session_spawned) = [Str ''c'']
   \<and> toLowerCase ''c'' = ''c''
   \<and> snd (handleKeyPress ''C'' session_spawned) = session_spawned
   \<and> currentTarget (snd (handleKeyPress ''c'' session_spawned))
       = Some \<lparr> enemy = 0, node = 0, detector = 4 \<rparr>
   \<and> toLowerCase ''A'' = toLowerCase ''a''
   \<and> handleKeyPress ''A'' (snd (handleKeyPress ''c'' session_spawned))
       = handleKeyPress ''a'' (snd (handleKeyPress ''c'' session_spawned))
   \<and> typed (heap (snd (handleKeyPress ''A'' (snd (handleKeyPress ''c'' session_spawned)))) 0) = 2"
proof -
  let ?en = "\<lparr> enemy = 0, node = 0, detector = 4 \<rparr>"
  let ?t = "snd (handleKeyPress ''c'' session_spawned)"
  note F = session_spawned_facts
  have up: "Str ''C'' \<notin> fst ` set (activeEnemies session_spawned)"
    by (simp add: F)
  have lo: "toLowerCase ''A'' = toLowerCase ''a''"
    by (simp add: toLowerCase_def lowerChar_def)
  have lc: "toLowerCase ''C'' \<noteq> ''C''
      \<and> (\<forall>p \<in> set (activeEnemies session_spawned). \<forall>k. fst p = Str k \<longrightarrow> toLowerCase k = k)"
    by (simp add: F toLowerCase_def lowerChar_def)
  note K1 = key_case_handling [of session_spawned "''C''" ?en "''C''"]
  note K2 = key_case_handling [of session_spawned "''c''" ?en "''c''"]
  from K1 F(2) lc have 1: "snd (handleKeyPress ''C'' session_spawned) = session_spawned"
    by blast
  from K2 F(2) have "currentTarget ?t = map_of (activeEnemies session_spawned) (Str ''c'')"
    by blast
  then have 2: "currentTarget ?t = Some ?en"
    by (simp add: F)
  have "?t = callUpdate 0 (setCurrentTarget ?en session_spawned)"
    by (simp add: handleKeyPress_def F setCurrentTarget_def)
  then have h: "heap ?t 0 = updateCompletionPercentage (Enemy_new ''cat'')"
    by (simp add: setCurrentTarget_def F)
  note K3 = key_case_handling [of ?t "''A''" ?en "''a''"]
  from K3 2 lo have 3: "handleKeyPress ''A'' ?t = handleKeyPress ''a'' ?t"
    by blast
  from K3 2 have "typed (heap (snd (handleKeyPress ''A'' ?t)) (enemy ?en)) =
        (if nxt (heap ?t (enemy ?en)) = Str (toLowerCase ''A'') then typed (heap ?t (enemy ?en)) + 1
         else typed (heap ?t (enemy ?en)))"
    by blast
  then have 4: "typed (heap (snd (handleKeyPress ''A'' ?t)) 0) = 2"
    by (simp add: h charAt_def toLowerCase_def lowerChar_def)
  have ks: "map fst (activeEnemies session_spawned) = [Str ''c'']"
    and lk: "toLowerCase ''c'' = ''c''"
    by (simp_all add: F toLowerCase_def lowerChar_def)
  from lc have lc': "toLowerCase ''C'' \<noteq> ''C''"
    by blast
  from F(2) up lc' ks lk 1 2 lo 3 4 show ?thesis
    by blast
qed

theorem registry_invariant_witness:
  "activeEnemies (run [''cat''] [InitGame ''Normal'' (\<lambda>_. 0), SpawnTick] Game_new)
     = [(Str ''c'', \<lparr> enemy = 0, node = 0, detector = 4 \<rparr>)]
   \<and> distinct (map fst (activeEnemies (run [''cat''] [InitGame ''Normal'' (\<lambda>_. 0), SpawnTick] Game_new)))
   \<and> int (length (activeEnemies (run [''cat''] [InitGame ''Normal'' (\<lambda>_. 0), SpawnTick] Game_new)))
       \<le> activeEnemyLimit (run [''cat''] [InitGame ''Normal'' (\<lambda>_. 0), SpawnTick] Game_new)"
proof -
  note R = registry_invariant [of "[''cat'']" "[InitGame ''Normal'' (\<lambda>_. 0), SpawnTick]"]
  note F = session_spawned_facts(1) [unfolded session_spawned_def]
  from R F show ?thesis by blast
qed


end
